theory Spec2Isabelle
  imports Main
begin

section \<open>Values of the scripting platform\<close>

text \<open>
  A spreadsheet cell and a header hold a primitive value: text, a number, a boolean, or
  one of the empty values \<open>undefined\<close> and \<open>null\<close> (date cells, which the platform
  hands over as objects, are outside this model). Numbers are modelled by the integers;
  the platform's numbers with a fractional part, and NaN and the infinities, are floating
  point and outside this model. A value in general is a primitive, a plain object (its
  own enumerable properties, in enumeration order) or an array; the last two are what
  \<open>JSON.parse\<close> and \<open>Object.fromEntries\<close> build.
\<close>

datatype prim = Undefined | Null | Bool bool | Num int | Str string

datatype jsval = P prim | Obj "(string \<times> jsval) list" | Arr "jsval list"

type_synonym props = "(string \<times> jsval) list"

datatype js_error = TypeError

text \<open>Truthiness, as tested by \<open>if (x)\<close>, \<open>x && ...\<close> and \<open>x || ...\<close>.\<close>

fun truthy :: "prim \<Rightarrow> bool" where
  "truthy Undefined = False"
| "truthy Null = False"
| "truthy (Bool b) = b"
| "truthy (Num n) = (n \<noteq> 0)"
| "truthy (Str s) = (s \<noteq> [])"

text \<open>\<open>x instanceof Object\<close>: false for every primitive, true for objects and arrays.\<close>

fun instanceof_Object :: "jsval \<Rightarrow> bool" where
  "instanceof_Object (P _) = False"
| "instanceof_Object (Obj _) = True"
| "instanceof_Object (Arr _) = True"

subsection \<open>Property keys\<close>

text \<open>
  A value used as a property name (\<open>obj[x]\<close>, the first component of an entry given to
  \<open>Object.fromEntries\<close>) is converted to a string first.
\<close>

definition digit_char :: "nat \<Rightarrow> char" where
  "digit_char d = char_of (48 + d)"

function show_nat :: "nat \<Rightarrow> string" where
  "show_nat n = (if n < 10 then [digit_char n] else show_nat (n div 10) @ [digit_char (n mod 10)])"
  by pat_completeness auto
termination
  by (relation "measure id") auto

declare show_nat.simps [simp del]

definition show_int :: "int \<Rightarrow> string" where
  "show_int i = (if i < 0 then CHR ''-'' # show_nat (nat (- i)) else show_nat (nat i))"

fun to_property_key :: "prim \<Rightarrow> string" where
  "to_property_key Undefined = ''undefined''"
| "to_property_key Null = ''null''"
| "to_property_key (Bool b) = (if b then ''true'' else ''false'')"
| "to_property_key (Num n) = show_int n"
| "to_property_key (Str s) = s"

text \<open>
  An array index is the canonical decimal form of an integer below \<open>2^32 - 1\<close>. Own
  properties enumerate with the array indices first, in ascending numeric order, and
  the other string keys after them in the order they were created.
\<close>

definition digit_of :: "char \<Rightarrow> nat option" where
  "digit_of c = (let n = (of_char c :: nat) in if 48 \<le> n \<and> n \<le> 57 then Some (n - 48) else None)"

fun digits_value :: "nat \<Rightarrow> string \<Rightarrow> nat option" where
  "digits_value acc [] = Some acc"
| "digits_value acc (c # cs) =
     (case digit_of c of None \<Rightarrow> None | Some d \<Rightarrow> digits_value (10 * acc + d) cs)"

definition array_index :: "string \<Rightarrow> nat option" where
  "array_index s =
     (case s of
        [] \<Rightarrow> None
      | c # cs \<Rightarrow>
          if c = CHR ''0'' \<and> cs \<noteq> [] then None
          else (case digits_value 0 s of
                  None \<Rightarrow> None
                | Some n \<Rightarrow> if n < 4294967295 then Some n else None))"

subsection \<open>Own properties of an ordinary object\<close>

text \<open>Writing an existing own property keeps its place in the enumeration order.\<close>

fun replace_value :: "string \<Rightarrow> 'a \<Rightarrow> (string \<times> 'a) list \<Rightarrow> (string \<times> 'a) list" where
  "replace_value k v [] = []"
| "replace_value k v ((k', v') # ps) =
     (if k' = k then (k', v) # ps else (k', v') # replace_value k v ps)"

text \<open>A new array-index key goes before the first key that is a larger index or no index.\<close>

fun insert_index :: "nat \<Rightarrow> string \<Rightarrow> 'a \<Rightarrow> (string \<times> 'a) list \<Rightarrow> (string \<times> 'a) list" where
  "insert_index n k v [] = [(k, v)]"
| "insert_index n k v ((k', v') # ps) =
     (case array_index k' of
        None \<Rightarrow> (k, v) # (k', v') # ps
      | Some m \<Rightarrow> if m < n then (k', v') # insert_index n k v ps else (k, v) # (k', v') # ps)"

text \<open>Creating or overwriting the own data property \<open>k\<close>.\<close>

definition define_own :: "(string \<times> 'a) list \<Rightarrow> string \<Rightarrow> 'a \<Rightarrow> (string \<times> 'a) list" where
  "define_own ps k v =
     (if k \<in> set (map fst ps) then replace_value k v ps
      else (case array_index k of
              None \<Rightarrow> ps @ [(k, v)]
            | Some n \<Rightarrow> insert_index n k v ps))"

text \<open>
  The names every object literal inherits from \<open>Object.prototype\<close>. A property read
  \<open>obj[k]\<close> finds the own property first, then an inherited member, and is
  \<open>undefined\<close> otherwise.
\<close>

definition object_prototype_names :: "string list" where
  "object_prototype_names =
     [''constructor'', ''__defineGetter__'', ''__defineSetter__'', ''hasOwnProperty'',
      ''__lookupGetter__'', ''__lookupSetter__'', ''isPrototypeOf'', ''propertyIsEnumerable'',
      ''toString'', ''valueOf'', ''__proto__'', ''toLocaleString'']"

datatype 'a property = Own 'a | Inherited string | Absent

definition get_property :: "(string \<times> 'a) list \<Rightarrow> string \<Rightarrow> 'a property" where
  "get_property ps k =
     (case map_of ps k of
        Some v \<Rightarrow> Own v
      | None \<Rightarrow> if k \<in> set object_prototype_names then Inherited k else Absent)"

text \<open>
  An assignment \<open>obj[k] = v\<close>. The prototype of the object matters for one key only:
  \<open>__proto__\<close> is an accessor of \<open>Object.prototype\<close>, so assigning it to an object that
  inherits the accessor and has no own property of that name creates no property; the
  setter replaces the prototype when \<open>v\<close> is \<open>null\<close> or an object and does nothing for
  any other value. Every other inherited member is a writable data property, and the
  assignment creates an own property as usual.
\<close>

definition proto_key :: string where
  "proto_key = ''__proto__''"

datatype proto = Object_prototype | Null_prototype | Value_prototype jsval

record jsobject =
  prototype :: proto
  own :: props

definition empty_object :: jsobject where
  "empty_object = \<lparr>prototype = Object_prototype, own = []\<rparr>"

fun inherits_proto_setter :: "proto \<Rightarrow> bool" where
  "inherits_proto_setter Object_prototype = True"
| "inherits_proto_setter Null_prototype = False"
| "inherits_proto_setter (Value_prototype (Obj ps)) = (proto_key \<notin> set (map fst ps))"
| "inherits_proto_setter (Value_prototype _) = True"

definition obj_set :: "jsobject \<Rightarrow> string \<Rightarrow> jsval \<Rightarrow> jsobject" where
  "obj_set ob k v =
     (if k = proto_key \<and> k \<notin> set (map fst (own ob)) \<and> inherits_proto_setter (prototype ob)
      then (case v of
              P Null \<Rightarrow> ob\<lparr>prototype := Null_prototype\<rparr>
            | P _ \<Rightarrow> ob
            | _ \<Rightarrow> ob\<lparr>prototype := Value_prototype v\<rparr>)
      else ob\<lparr>own := define_own (own ob) k v\<rparr>)"

section \<open>context.js: the Context sheet\<close>

subsection \<open>Scanning the rows\<close>

text \<open>
  The destructuring \<open>const [collection, , , key, , , value] = row\<close> reads positions 0, 3
  and 6 of the row; a position beyond the end of the row gives \<open>undefined\<close>.
\<close>

definition cell_at :: "prim list \<Rightarrow> nat \<Rightarrow> prim" where
  "cell_at row i = (if i < length row then row ! i else Undefined)"

definition row_collection :: "prim list \<Rightarrow> prim" where
  "row_collection row = cell_at row 0"

definition row_key :: "prim list \<Rightarrow> prim" where
  "row_key row = cell_at row 3"

definition row_value :: "prim list \<Rightarrow> prim" where
  "row_value row = cell_at row 6"

text \<open>The guard \<open>key && value !== undefined && value !== ''\<close> of the row callback.\<close>

definition row_kept :: "prim list \<Rightarrow> bool" where
  "row_kept row = (truthy (row_key row) \<and> row_value row \<noteq> Undefined \<and> row_value row \<noteq> Str [])"

text \<open>
  The two intermediate stores of \<open>createContextJSON\<close>: the object \<open>grouped\<close> (collection
  name to the array of its \<open>[key, value]\<close> pairs) and the array \<open>nonCollectionRows\<close>.
\<close>

type_synonym entries = "(prim \<times> prim) list"

type_synonym staging = "(string \<times> entries) list \<times> entries"

text \<open>
  The callback of \<open>data.slice(1).forEach\<close>. A row that is \<open>null\<close> or \<open>undefined\<close>
  (\<open>None\<close>) cannot be destructured. \<open>grouped[collection]\<close> is a property read of an
  object literal: when the name is one that \<open>Object.prototype\<close> supplies, the read is
  truthy, no array is created, and the call of its missing \<open>push\<close> raises.
\<close>

fun stage_row :: "staging \<Rightarrow> prim list option \<Rightarrow> js_error + staging" where
  "stage_row st None = Inl TypeError"
| "stage_row (grouped, nonCollectionRows) (Some row) =
     (if row_kept row then
        (if truthy (row_collection row) then
           (case get_property grouped (to_property_key (row_collection row)) of
              Own rows \<Rightarrow>
                Inr (define_own grouped (to_property_key (row_collection row))
                       (rows @ [(row_key row, row_value row)]), nonCollectionRows)
            | Inherited m \<Rightarrow> Inl TypeError
            | Absent \<Rightarrow>
                Inr (define_own grouped (to_property_key (row_collection row))
                       [(row_key row, row_value row)], nonCollectionRows))
         else Inr (grouped, nonCollectionRows @ [(row_key row, row_value row)]))
      else Inr (grouped, nonCollectionRows))"

fun scan_rows :: "staging \<Rightarrow> prim list option list \<Rightarrow> js_error + staging" where
  "scan_rows st [] = Inr st"
| "scan_rows st (r # rs) =
     (case stage_row st r of Inl e \<Rightarrow> Inl e | Inr st' \<Rightarrow> scan_rows st' rs)"

subsection \<open>Building the tree\<close>

text \<open>\<open>Object.fromEntries\<close>: each pair creates or overwrites an own property, in order.\<close>

fun from_entries_into :: "props \<Rightarrow> entries \<Rightarrow> props" where
  "from_entries_into ps [] = ps"
| "from_entries_into ps ((k, v) # es) =
     from_entries_into (define_own ps (to_property_key k) (P v)) es"

definition Object_fromEntries :: "entries \<Rightarrow> props" where
  "Object_fromEntries es = from_entries_into [] es"

text \<open>
  \<open>Object.entries(grouped).forEach(([collection, rows]) => result[collection] =
  Object.fromEntries(rows))\<close>.
\<close>

fun assign_collections :: "jsobject \<Rightarrow> (string \<times> entries) list \<Rightarrow> jsobject" where
  "assign_collections result [] = result"
| "assign_collections result ((collection, rows) # gs) =
     assign_collections (obj_set result collection (Obj (Object_fromEntries rows))) gs"

text \<open>\<open>Object.assign(target, source)\<close>: assigns every own property of the source.\<close>

fun Object_assign :: "jsobject \<Rightarrow> props \<Rightarrow> jsobject" where
  "Object_assign target [] = target"
| "Object_assign target ((k, v) # ps) = Object_assign (obj_set target k v) ps"

definition build_result :: "staging \<Rightarrow> jsobject" where
  "build_result st =
     Object_assign (assign_collections empty_object (fst st)) (Object_fromEntries (snd st))"

subsection \<open>The batch pass over the values\<close>

text \<open>
  \<open>JSON.parse\<close> is a built-in of the platform and a parameter of the model: a function
  from the value it is given to the value it returns, \<open>None\<close> when it raises.
\<close>

type_synonym json_parser = "jsval \<Rightarrow> jsval option"

definition parseValue :: "json_parser \<Rightarrow> jsval \<Rightarrow> jsval" where
  "parseValue JSON_parse v = (case JSON_parse v of Some x \<Rightarrow> x | None \<Rightarrow> v)"

definition batchParseValues :: "json_parser \<Rightarrow> jsval list \<Rightarrow> jsval list" where
  "batchParseValues JSON_parse vs =
     map (\<lambda>v. case JSON_parse v of Some x \<Rightarrow> x | None \<Rightarrow> v) vs"

text \<open>
  \<open>Object.values\<close> and \<open>Object.keys\<close> of an object or an array. The source calls them
  on the values that are \<open>instanceof Object\<close> (and on \<open>result\<close> itself) only, so the
  equations for a primitive are never used.
\<close>

fun Object_values :: "jsval \<Rightarrow> jsval list" where
  "Object_values (Obj ps) = map snd ps"
| "Object_values (Arr xs) = xs"
| "Object_values (P _) = []"

fun Object_keys :: "jsval \<Rightarrow> string list" where
  "Object_keys (Obj ps) = map fst ps"
| "Object_keys (Arr xs) = map show_nat [0..<length xs]"
| "Object_keys (P _) = []"

text \<open>
  \<open>Object.values(result).flatMap(obj => obj instanceof Object ? Object.values(obj) :
  [obj])\<close>.
\<close>

definition all_values :: "props \<Rightarrow> jsval list" where
  "all_values result =
     concat (map (\<lambda>obj. if instanceof_Object obj then Object_values obj else [obj])
                 (map snd result))"

text \<open>Reading an array beyond its end gives \<open>undefined\<close>.\<close>

definition element_at :: "jsval list \<Rightarrow> nat \<Rightarrow> jsval" where
  "element_at xs i = (if i < length xs then xs ! i else P Undefined)"

text \<open>\<open>obj[subKey] = x\<close> for a key that \<open>Object.keys(obj)\<close> listed.\<close>

fun set_member :: "jsval \<Rightarrow> string \<Rightarrow> jsval \<Rightarrow> jsval" where
  "set_member (Obj ps) k x = Obj (define_own ps k x)"
| "set_member (Arr xs) k x =
     (case array_index k of
        Some i \<Rightarrow> if i < length xs then Arr (xs[i := x]) else Arr xs
      | None \<Rightarrow> Arr xs)"
| "set_member (P p) k x = P p"

text \<open>
  The inner loop \<open>Object.keys(result[key]).forEach(subKey => { result[key][subKey] =
  parsedValues[index++]; })\<close>, on the object and the running index.
\<close>

fun assign_members :: "jsval list \<Rightarrow> string list \<Rightarrow> jsval \<times> nat \<Rightarrow> jsval \<times> nat" where
  "assign_members parsedValues [] st = st"
| "assign_members parsedValues (subKey # ks) (obj, index) =
     assign_members parsedValues ks (set_member obj subKey (element_at parsedValues index), Suc index)"

text \<open>
  The outer loop over \<open>Object.keys(result)\<close>. The nested object is changed in place, so the
  entry of \<open>result\<close> holds the changed object afterwards. Every key that
  \<open>Object.keys(result)\<close> lists is an own property, so the read \<open>result[key]\<close> finds it;
  the first case below (\<open>undefined\<close>, which is not \<open>instanceof Object\<close>) never arises.
\<close>

fun assign_parsed :: "jsval list \<Rightarrow> string list \<Rightarrow> props \<times> nat \<Rightarrow> props \<times> nat" where
  "assign_parsed parsedValues [] st = st"
| "assign_parsed parsedValues (key # ks) (result, index) =
     (case map_of result key of
        None \<Rightarrow>
          assign_parsed parsedValues ks
            (define_own result key (element_at parsedValues index), Suc index)
      | Some v \<Rightarrow>
          if instanceof_Object v then
            (case assign_members parsedValues (Object_keys v) (v, index) of
               (v', index') \<Rightarrow> assign_parsed parsedValues ks (define_own result key v', index'))
          else assign_parsed parsedValues ks
                 (define_own result key (element_at parsedValues index), Suc index))"

definition coerce_batch :: "json_parser \<Rightarrow> props \<Rightarrow> props" where
  "coerce_batch JSON_parse result =
     fst (assign_parsed (batchParseValues JSON_parse (all_values result))
            (map fst result) (result, 0))"

subsection \<open>createContextJSON\<close>

text \<open>
  The body of the \<open>try\<close> block. The argument is \<open>None\<close> for \<open>null\<close> or \<open>undefined\<close>
  (what \<open>getSheetData\<close> returns when the sheet cannot be read), on which
  \<open>data.slice\<close> raises.
\<close>

definition createContextJSON_try :: "json_parser \<Rightarrow> prim list option list option \<Rightarrow> js_error + props" where
  "createContextJSON_try JSON_parse data =
     (case data of
        None \<Rightarrow> Inl TypeError
      | Some rows \<Rightarrow>
          (case scan_rows ([], []) (drop 1 rows) of
             Inl e \<Rightarrow> Inl e
           | Inr st \<Rightarrow> Inr (coerce_batch JSON_parse (own (build_result st)))))"

text \<open>The \<open>catch\<close> logs the error and returns \<open>{}\<close>.\<close>

definition createContextJSON :: "json_parser \<Rightarrow> prim list option list option \<Rightarrow> props" where
  "createContextJSON JSON_parse data =
     (case createContextJSON_try JSON_parse data of Inl e \<Rightarrow> [] | Inr result \<Rightarrow> result)"

text \<open>
  The coercion as the specification words it, for comparison with the batch pass: every
  scalar value inside a collection object and every top-level flat value is coerced
  independently, in place, by the single-value function \<open>parseValue\<close>.
\<close>

definition coerce_value_spec :: "json_parser \<Rightarrow> jsval \<Rightarrow> jsval" where
  "coerce_value_spec JSON_parse v =
     (case v of
        Obj members \<Rightarrow> Obj (map (\<lambda>(k, x). (k, parseValue JSON_parse x)) members)
      | _ \<Rightarrow> parseValue JSON_parse v)"

definition coerce_each_spec :: "json_parser \<Rightarrow> props \<Rightarrow> props" where
  "coerce_each_spec JSON_parse result = map (\<lambda>(k, v). (k, coerce_value_spec JSON_parse v)) result"

definition createContextJSON_spec :: "json_parser \<Rightarrow> prim list option list option \<Rightarrow> props" where
  "createContextJSON_spec JSON_parse data =
     (case data of
        None \<Rightarrow> []
      | Some rows \<Rightarrow>
          (case scan_rows ([], []) (drop 1 rows) of
             Inl e \<Rightarrow> []
           | Inr st \<Rightarrow> coerce_each_spec JSON_parse (own (build_result st))))"

section \<open>The Epics sheet\<close>

subsection \<open>isExtractTodoSummariesTrigger\<close>

text \<open>The edited range, as far as the trigger test reads it.\<close>

record edit_range =
  getColumn :: int
  getValue :: prim

definition isExtractTodoSummariesTrigger :: "edit_range \<Rightarrow> bool" where
  "isExtractTodoSummariesTrigger r = (getColumn r = 10 \<and> getValue r = Str ''Groom EPIC'')"

subsection \<open>getRowData\<close>

text \<open>
  \<open>headers.reduce((obj, header, index) => { obj[header] = row[index]; return obj; }, {})\<close>:
  the accumulator, the running index and the headers still to visit.
\<close>

fun reduce_headers :: "prim list \<Rightarrow> jsobject \<Rightarrow> nat \<Rightarrow> prim list \<Rightarrow> jsobject" where
  "reduce_headers row obj index [] = obj"
| "reduce_headers row obj index (header # hs) =
     reduce_headers row (obj_set obj (to_property_key header) (P (cell_at row index))) (Suc index) hs"

text \<open>
  \<open>None\<close> stands for \<open>null\<close> or \<open>undefined\<close>: \<open>headers.reduce\<close> raises on it, and so
  does \<open>row[index]\<close> as soon as there is a header to visit.
\<close>

definition getRowData_try :: "prim list option \<Rightarrow> prim list option \<Rightarrow> js_error + props" where
  "getRowData_try headers row =
     (case headers of
        None \<Rightarrow> Inl TypeError
      | Some hs \<Rightarrow>
          (case row of
             None \<Rightarrow> if hs = [] then Inr [] else Inl TypeError
           | Some r \<Rightarrow> Inr (own (reduce_headers r empty_object 0 hs))))"

definition getRowData :: "prim list option \<Rightarrow> prim list option \<Rightarrow> props" where
  "getRowData headers row = (case getRowData_try headers row of Inl e \<Rightarrow> [] | Inr obj \<Rightarrow> obj)"

subsection \<open>createEpicsJSON\<close>

text \<open>
  What the event object, the session and the clock answer when the trigger is supplied:
  \<open>e.source.getId()\<close>, \<open>e.source.getActiveSheet().getName()\<close>, \<open>e.range.getRow()\<close>,
  \<open>Session.getActiveUser().getEmail()\<close> and \<open>new Date().toISOString()\<close>.
\<close>

record trigger =
  source_id :: string
  active_sheet_name :: string
  range_row :: int
  active_user_email :: string
  now_iso :: string

text \<open>The loop \<open>for (const [key, value] of Object.entries(data))\<close> filling \<open>json.eventData\<close>.\<close>

fun copy_present :: "jsobject \<Rightarrow> props \<Rightarrow> jsobject" where
  "copy_present eventData [] = eventData"
| "copy_present eventData ((key, value) # es) =
     copy_present
       (if value \<noteq> P Null \<and> value \<noteq> P Undefined \<and> value \<noteq> P (Str [])
        then obj_set eventData key value else eventData) es"

definition trigger_fields :: "trigger option \<Rightarrow> props" where
  "trigger_fields e =
     (case e of
        None \<Rightarrow> []
      | Some t \<Rightarrow>
          [(''gsheet_id'', P (Str (source_id t))),
           (''sheet_name_id'', P (Str (active_sheet_name t))),
           (''row_id'', P (Num (range_row t))),
           (''user_id'', P (Str (active_user_email t))),
           (''modify_time'', P (Str (now_iso t)))])"

text \<open>
  The body of the \<open>try\<close> block; \<open>data\<close> is \<open>None\<close> for \<open>null\<close> or \<open>undefined\<close>, on which
  \<open>Object.entries\<close> raises. The object literal has the keys \<open>context\<close> and \<open>eventData\<close>,
  the trigger fields are created after them, and the loop changes the object held by
  \<open>eventData\<close> in place.
\<close>

definition createEpicsJSON_try :: "props option \<Rightarrow> jsval \<Rightarrow> trigger option \<Rightarrow> js_error + props" where
  "createEpicsJSON_try data contextData e =
     (case data of
        None \<Rightarrow> Inl TypeError
      | Some entries \<Rightarrow>
          Inr ([(''context'', contextData),
                (''eventData'', Obj (own (copy_present empty_object entries)))]
               @ trigger_fields e))"

definition createEpicsJSON :: "props option \<Rightarrow> jsval \<Rightarrow> trigger option \<Rightarrow> props" where
  "createEpicsJSON data contextData e =
     (case createEpicsJSON_try data contextData e of Inl err \<Rightarrow> [] | Inr json \<Rightarrow> json)"

section \<open>config.js\<close>

record config =
  WEBHOOKS :: "(string \<times> string) list"
  DEBUG :: bool

definition CONFIG :: config where
  "CONFIG =
     \<lparr>WEBHOOKS =
        [(''GROOM_EPICS'', ''https://hook.eu2.make.com/rl83vjk9x0iad1avisatjk9rok27wgpy''),
         (''GROOM_USER_STORIES_AND_TASKS'', []),
         (''GROOM_SUBTASKS'', []),
         (''ESTIMATE_SUBTASKS'', [])],
      DEBUG = False\<rparr>"

text \<open>
  What \<open>CONFIG.WEBHOOKS[operation] || null\<close> evaluates to: a configured string when it is
  not empty, a member the object literal inherits when the name is not configured and
  \<open>Object.prototype\<close> supplies it, and \<open>null\<close> otherwise. The configuration object is
  global in the source and an argument here.
\<close>

datatype webhook = Url string | Null_url | Prototype_member string

definition getWebhookUrl :: "config \<Rightarrow> string \<Rightarrow> webhook" where
  "getWebhookUrl cfg operation =
     (case get_property (WEBHOOKS cfg) operation of
        Own url \<Rightarrow> if url \<noteq> [] then Url url else Null_url
      | Inherited m \<Rightarrow> Prototype_member m
      | Absent \<Rightarrow> Null_url)"

section \<open>Notions used to state the results\<close>

text \<open>
  A stand-in for \<open>JSON.parse\<close> on which the model can be run: it knows a handful of
  texts (and the values that print as them) and rejects everything else.
\<close>

definition sample_JSON_parse :: json_parser where
  "sample_JSON_parse v =
     (if v = P (Str ''42'') \<or> v = P (Num 42) then Some (P (Num 42))
      else if v = P (Str ''true'') \<or> v = P (Bool True) then Some (P (Bool True))
      else if v = P (Str ''null'') \<or> v = P Null then Some (P Null)
      else if v = P (Str ''{}'') then Some (Obj [])
      else if v = P (Str ''{\"nestedKey\": \"nestedValue\"}'')
        then Some (Obj [(''nestedKey'', P (Str ''nestedValue''))])
      else None)"

text \<open>
  The pairs that data rows contribute: those of the rows that pass the guard and have no
  collection, and those of the rows that pass the guard and name the collection \<open>c\<close>.
\<close>

definition bare_entries :: "prim list list \<Rightarrow> entries" where
  "bare_entries rows =
     map (\<lambda>r. (row_key r, row_value r))
       (filter (\<lambda>r. row_kept r \<and> \<not> truthy (row_collection r)) rows)"

definition collection_entries :: "string \<Rightarrow> prim list list \<Rightarrow> entries" where
  "collection_entries c rows =
     map (\<lambda>r. (row_key r, row_value r))
       (filter (\<lambda>r. row_kept r \<and> truthy (row_collection r)
                    \<and> to_property_key (row_collection r) = c) rows)"

text \<open>The rows on which the callback raises when \<open>grouped\<close> was built by the scan itself.\<close>

definition row_raises :: "prim list option \<Rightarrow> bool" where
  "row_raises r =
     (case r of
        None \<Rightarrow> True
      | Some row \<Rightarrow>
          row_kept row \<and> truthy (row_collection row)
          \<and> to_property_key (row_collection row) \<in> set object_prototype_names)"

text \<open>An entry as \<open>Object.fromEntries\<close> stores it.\<close>

definition stored_entry :: "prim \<times> prim \<Rightarrow> string \<times> jsval" where
  "stored_entry e = (to_property_key (fst e), P (snd e))"

text \<open>
  The values a tree holds before the batch pass: a primitive, or an object (with
  distinct keys, as every object has).
\<close>

definition shallow_value :: "jsval \<Rightarrow> bool" where
  "shallow_value v =
     (case v of P p \<Rightarrow> True | Obj members \<Rightarrow> distinct (map fst members) | Arr xs \<Rightarrow> False)"

section \<open>Properties of the object model\<close>

lemma keys_replace_value: "map fst (replace_value k v ps) = map fst ps"
  by (induction ps) auto

lemma key_set_replace_value: "fst ` set (replace_value k v ps) = fst ` set ps"
  using keys_replace_value [of k v ps] by (metis set_map)

lemma map_of_replace_value:
  "k \<in> fst ` set ps \<Longrightarrow> map_of (replace_value k v ps) = (map_of ps)(k \<mapsto> v)"
proof (induction ps)
  case Nil
  then show ?case by simp
next
  case (Cons a ps)
  obtain k' v' where a: "a = (k', v')" by (cases a)
  show ?case
  proof (cases "k' = k")
    case True
    with a show ?thesis by (simp add: fun_eq_iff)
  next
    case False
    with Cons.prems a have "k \<in> fst ` set ps" by auto
    with Cons.IH False a show ?thesis by (simp add: fun_eq_iff)
  qed
qed

lemma values_replace_value: "snd ` set (replace_value k v ps) \<subseteq> insert v (snd ` set ps)"
  by (induction ps) (fastforce split: if_splits)+

lemma key_set_insert_index: "fst ` set (insert_index n k v ps) = insert k (fst ` set ps)"
proof (induction ps)
  case Nil
  then show ?case by simp
next
  case (Cons a ps)
  obtain k' v' where a: "a = (k', v')" by (cases a)
  with Cons show ?case
    by (cases "array_index k'") auto
qed

lemma distinct_insert_index:
  "k \<notin> fst ` set ps \<Longrightarrow> distinct (map fst ps) \<Longrightarrow> distinct (map fst (insert_index n k v ps))"
proof (induction ps)
  case Nil
  then show ?case by simp
next
  case (Cons a ps)
  obtain k' v' where a: "a = (k', v')" by (cases a)
  with Cons show ?case
    using key_set_insert_index [of n k v ps]
    by (cases "array_index k'") auto
qed

lemma map_of_insert_index:
  "k \<notin> fst ` set ps \<Longrightarrow> map_of (insert_index n k v ps) = (map_of ps)(k \<mapsto> v)"
proof (induction ps)
  case Nil
  then show ?case by simp
next
  case (Cons a ps)
  obtain k' v' where a: "a = (k', v')" by (cases a)
  with Cons show ?case
    by (cases "array_index k'") (auto simp: fun_eq_iff)
qed

lemma values_insert_index: "snd ` set (insert_index n k v ps) = insert v (snd ` set ps)"
proof (induction ps)
  case Nil
  then show ?case by simp
next
  case (Cons a ps)
  obtain k' v' where a: "a = (k', v')" by (cases a)
  with Cons show ?case
    by (cases "array_index k'") auto
qed

lemma map_of_append_fresh:
  "k \<notin> fst ` set ps \<Longrightarrow> map_of (ps @ [(k, v)]) = (map_of ps)(k \<mapsto> v)"
  by (induction ps) (auto simp: fun_eq_iff)

lemma map_of_define_own: "map_of (define_own ps k v) = (map_of ps)(k \<mapsto> v)"
proof (cases "k \<in> fst ` set ps")
  case True
  then show ?thesis by (simp add: define_own_def map_of_replace_value)
next
  case False
  then show ?thesis
    using map_of_append_fresh [of k ps v]
    by (cases "array_index k") (simp_all add: define_own_def map_of_insert_index del: map_of_append)
qed

lemma key_set_define_own: "fst ` set (define_own ps k v) = insert k (fst ` set ps)"
proof (cases "k \<in> fst ` set ps")
  case True
  then show ?thesis by (auto simp: define_own_def key_set_replace_value)
next
  case False
  then show ?thesis
    by (cases "array_index k") (simp_all add: define_own_def key_set_insert_index)
qed

lemma distinct_define_own:
  "distinct (map fst ps) \<Longrightarrow> distinct (map fst (define_own ps k v))"
proof (cases "k \<in> fst ` set ps")
  case True
  then show "distinct (map fst ps) \<Longrightarrow> ?thesis" by (simp add: define_own_def keys_replace_value)
next
  case False
  then show "distinct (map fst ps) \<Longrightarrow> ?thesis"
    by (cases "array_index k") (simp_all add: define_own_def distinct_insert_index)
qed

lemma values_define_own: "snd ` set (define_own ps k v) \<subseteq> insert v (snd ` set ps)"
proof (cases "k \<in> fst ` set ps")
  case True
  then show ?thesis using values_replace_value [of k v ps] by (simp add: define_own_def)
next
  case False
  then show ?thesis
    by (cases "array_index k") (auto simp: define_own_def values_insert_index)
qed

lemma define_own_fresh_plain:
  "k \<notin> fst ` set ps \<Longrightarrow> array_index k = None \<Longrightarrow> define_own ps k v = ps @ [(k, v)]"
  by (simp add: define_own_def)

lemma replace_value_split:
  "k \<notin> fst ` set pre \<Longrightarrow> replace_value k v (pre @ (k, w) # post) = pre @ (k, v) # post"
  by (induction pre) auto

lemma define_own_split:
  "k \<notin> fst ` set pre \<Longrightarrow> define_own (pre @ (k, w) # post) k v = pre @ (k, v) # post"
  by (simp add: define_own_def replace_value_split)

subsection \<open>The scan\<close>

lemma get_property_cases:
  "get_property ps k =
     (case map_of ps k of
        Some v \<Rightarrow> Own v
      | None \<Rightarrow> if k \<in> set object_prototype_names then Inherited k else Absent)"
  by (simp add: get_property_def)

lemma stage_row_raises:
  assumes "fst ` set g \<inter> set object_prototype_names = {}" and "row_raises r"
  shows "stage_row (g, f) r = Inl TypeError"
proof (cases r)
  case None
  then show ?thesis by simp
next
  case (Some row)
  with assms(2) have kept: "row_kept row" "truthy (row_collection row)"
    and inh: "to_property_key (row_collection row) \<in> set object_prototype_names"
    by (simp_all add: row_raises_def)
  from inh assms(1) have "to_property_key (row_collection row) \<notin> fst ` set g" by auto
  then have "map_of g (to_property_key (row_collection row)) = None"
    by (simp add: map_of_eq_None_iff)
  with Some kept inh show ?thesis by (simp add: get_property_def)
qed

lemma stage_row_ok:
  assumes "fst ` set g \<inter> set object_prototype_names = {}" and "\<not> row_raises (Some row)"
  shows "stage_row (g, f) (Some row) =
           Inr (if row_kept row \<and> truthy (row_collection row)
                then define_own g (to_property_key (row_collection row))
                       ((case map_of g (to_property_key (row_collection row)) of
                           Some es \<Rightarrow> es | None \<Rightarrow> []) @ [(row_key row, row_value row)])
                else g,
                if row_kept row \<and> \<not> truthy (row_collection row)
                then f @ [(row_key row, row_value row)] else f)"
  using assms(2)
  by (auto simp: row_raises_def get_property_def split: option.splits)

lemma scan_rows_raises:
  assumes "fst ` set g \<inter> set object_prototype_names = {}" and "\<exists>r \<in> set rs. row_raises r"
  shows "scan_rows (g, f) rs = Inl TypeError"
  using assms
proof (induction rs arbitrary: g f)
  case Nil
  then show ?case by simp
next
  case (Cons r rs)
  show ?case
  proof (cases "row_raises r")
    case True
    with Cons.prems(1) show ?thesis by (simp add: stage_row_raises)
  next
    case False
    then obtain row where r: "r = Some row" by (cases r) (simp_all add: row_raises_def)
    from False Cons.prems(2) have rest: "\<exists>r \<in> set rs. row_raises r" by auto
    let ?g = "if row_kept row \<and> truthy (row_collection row)
                then define_own g (to_property_key (row_collection row))
                       ((case map_of g (to_property_key (row_collection row)) of
                           Some es \<Rightarrow> es | None \<Rightarrow> []) @ [(row_key row, row_value row)])
                else g"
    from False r have "to_property_key (row_collection row) \<in> set object_prototype_names
        \<Longrightarrow> \<not> (row_kept row \<and> truthy (row_collection row))"
      by (auto simp: row_raises_def)
    with Cons.prems(1) have inv: "fst ` set ?g \<inter> set object_prototype_names = {}"
      by (auto simp: key_set_define_own)
    from Cons.IH [OF inv rest] stage_row_ok [OF Cons.prems(1), of row f] False r
    show ?thesis by simp
  qed
qed

lemma scan_rows_ok:
  assumes "fst ` set g \<inter> set object_prototype_names = {}"
    and "\<forall>r \<in> set rows. \<not> row_raises (Some r)"
    and "distinct (map fst g)"
  shows "\<exists>g'. scan_rows (g, f) (map Some rows) = Inr (g', f @ bare_entries rows)
           \<and> distinct (map fst g')
           \<and> fst ` set g' \<inter> set object_prototype_names = {}
           \<and> (\<forall>c. map_of g' c =
                 (case map_of g c of
                    Some es \<Rightarrow> Some (es @ collection_entries c rows)
                  | None \<Rightarrow> if collection_entries c rows = [] then None
                            else Some (collection_entries c rows)))"
  using assms
proof (induction rows arbitrary: g f)
  case Nil
  then show ?case by (auto simp: bare_entries_def collection_entries_def split: option.splits)
next
  case (Cons row rows)
  let ?c = "to_property_key (row_collection row)"
  let ?e = "(row_key row, row_value row)"
  let ?g = "if row_kept row \<and> truthy (row_collection row)
              then define_own g ?c ((case map_of g ?c of Some es \<Rightarrow> es | None \<Rightarrow> []) @ [?e])
              else g"
  let ?f = "if row_kept row \<and> \<not> truthy (row_collection row) then f @ [?e] else f"
  from Cons.prems(2) have ok: "\<not> row_raises (Some row)" and rest: "\<forall>r \<in> set rows. \<not> row_raises (Some r)"
    by simp_all
  from ok have "?c \<in> set object_prototype_names \<Longrightarrow> \<not> (row_kept row \<and> truthy (row_collection row))"
    by (auto simp: row_raises_def)
  with Cons.prems(1) have inv: "fst ` set ?g \<inter> set object_prototype_names = {}"
    by (auto simp: key_set_define_own)
  from Cons.prems(3) have dist: "distinct (map fst ?g)" by (simp add: distinct_define_own)
  from Cons.IH [OF inv rest dist, of ?f] obtain g' where
    scan: "scan_rows (?g, ?f) (map Some rows) = Inr (g', ?f @ bare_entries rows)"
    and d': "distinct (map fst g')"
    and inv': "fst ` set g' \<inter> set object_prototype_names = {}"
    and look: "\<And>c. map_of g' c =
                 (case map_of ?g c of
                    Some es \<Rightarrow> Some (es @ collection_entries c rows)
                  | None \<Rightarrow> if collection_entries c rows = [] then None
                            else Some (collection_entries c rows))"
    by blast
  have f_eq: "?f @ bare_entries rows = f @ bare_entries (row # rows)"
    by (simp add: bare_entries_def)
  have "scan_rows (g, f) (map Some (row # rows)) = Inr (g', f @ bare_entries (row # rows))"
    using stage_row_ok [OF Cons.prems(1) ok, of f] scan f_eq by simp
  moreover have "map_of g' c =
                 (case map_of g c of
                    Some es \<Rightarrow> Some (es @ collection_entries c (row # rows))
                  | None \<Rightarrow> if collection_entries c (row # rows) = [] then None
                            else Some (collection_entries c (row # rows)))" for c
    unfolding look [of c]
    by (auto simp: map_of_define_own collection_entries_def split: option.splits)
  ultimately show ?case using d' inv' by blast
qed

subsection \<open>Building objects from entries\<close>

lemma stored_entry_pair [simp]: "stored_entry (k, v) = (to_property_key k, P v)"
  by (simp add: stored_entry_def)

lemma map_add_upd_front: "m(k \<mapsto> v) ++ n = m ++ ([k \<mapsto> v] ++ n)"
  by (auto simp: fun_eq_iff map_add_def split: option.splits)

lemma map_of_from_entries_into:
  "map_of (from_entries_into ps es) = map_of ps ++ map_of (rev (map stored_entry es))"
proof (induction es arbitrary: ps)
  case Nil
  then show ?case by simp
next
  case (Cons e es)
  obtain k v where e: "e = (k, v)" by (cases e)
  have "map_of (from_entries_into ps (e # es))
          = (map_of ps)(to_property_key k \<mapsto> P v) ++ map_of (rev (map stored_entry es))"
    unfolding e from_entries_into.simps Cons.IH map_of_define_own ..
  also have "\<dots> = map_of ps ++ ([to_property_key k \<mapsto> P v] ++ map_of (rev (map stored_entry es)))"
    by (rule map_add_upd_front)
  also have "[to_property_key k \<mapsto> P v] ++ map_of (rev (map stored_entry es))
               = map_of (rev (map stored_entry (e # es)))"
    unfolding e by simp
  finally show ?case .
qed

lemma map_of_Object_fromEntries:
  "map_of (Object_fromEntries es) = map_of (rev (map stored_entry es))"
  by (simp add: Object_fromEntries_def map_of_from_entries_into)

lemma distinct_from_entries_into:
  "distinct (map fst ps) \<Longrightarrow> distinct (map fst (from_entries_into ps es))"
proof (induction es arbitrary: ps)
  case Nil
  then show ?case by simp
next
  case (Cons e es)
  obtain k v where e: "e = (k, v)" by (cases e)
  with Cons show ?case by (simp add: distinct_define_own)
qed

lemma distinct_Object_fromEntries: "distinct (map fst (Object_fromEntries es))"
  by (simp add: Object_fromEntries_def distinct_from_entries_into)

lemma key_set_from_entries_into:
  "fst ` set (from_entries_into ps es) = fst ` set ps \<union> (\<lambda>e. to_property_key (fst e)) ` set es"
proof (induction es arbitrary: ps)
  case Nil
  then show ?case by simp
next
  case (Cons e es)
  obtain k v where e: "e = (k, v)" by (cases e)
  with Cons show ?case by (auto simp: key_set_define_own)
qed

lemma key_set_Object_fromEntries:
  "fst ` set (Object_fromEntries es) = (\<lambda>e. to_property_key (fst e)) ` set es"
  by (simp add: Object_fromEntries_def key_set_from_entries_into)

lemma values_from_entries_into:
  "snd ` set (from_entries_into ps es) \<subseteq> snd ` set ps \<union> range P"
proof (induction es arbitrary: ps)
  case Nil
  then show ?case by auto
next
  case (Cons e es)
  obtain k v where e: "e = (k, v)" by (cases e)
  have "snd ` set (from_entries_into ps (e # es))
          \<subseteq> snd ` set (define_own ps (to_property_key k) (P v)) \<union> range P"
    using Cons.IH [of "define_own ps (to_property_key k) (P v)"] e by simp
  also have "\<dots> \<subseteq> snd ` set ps \<union> range P"
    using values_define_own [of ps "to_property_key k" "P v"] by auto
  finally show ?case .
qed

lemma values_Object_fromEntries: "snd ` set (Object_fromEntries es) \<subseteq> range P"
  using values_from_entries_into [of "[]" es] by (simp add: Object_fromEntries_def)

subsection \<open>Assignments to an object\<close>

lemma obj_set_define:
  "k \<noteq> proto_key \<or> k \<in> fst ` set (own ob) \<or> \<not> inherits_proto_setter (prototype ob)
     \<Longrightarrow> obj_set ob k v = ob\<lparr>own := define_own (own ob) k v\<rparr>"
  unfolding obj_set_def by (simp only: set_map) metis

lemma own_obj_set_proto:
  "proto_key \<notin> fst ` set (own ob) \<Longrightarrow> inherits_proto_setter (prototype ob)
     \<Longrightarrow> own (obj_set ob proto_key v) = own ob"
  unfolding obj_set_def
  by (cases v) (simp_all split: prim.splits)

lemma own_obj_set_cases:
  "own (obj_set ob k v) = own ob \<or> own (obj_set ob k v) = define_own (own ob) k v"
proof (cases "k = proto_key \<and> k \<notin> set (map fst (own ob)) \<and> inherits_proto_setter (prototype ob)")
  case True
  then have "k = proto_key" and "proto_key \<notin> fst ` set (own ob)"
    and "inherits_proto_setter (prototype ob)"
    by auto
  then have "own (obj_set ob k v) = own ob"
    by (simp add: own_obj_set_proto)
  then show ?thesis ..
next
  case False
  then have "own (obj_set ob k v) = define_own (own ob) k v"
    by (auto simp: obj_set_def)
  then show ?thesis ..
qed

lemma prototype_obj_set_other:
  "k \<noteq> proto_key \<Longrightarrow> prototype (obj_set ob k v) = prototype ob"
  unfolding obj_set_def by simp

lemma distinct_obj_set:
  "distinct (map fst (own ob)) \<Longrightarrow> distinct (map fst (own (obj_set ob k v)))"
  using own_obj_set_cases [of ob k v] by (auto simp: distinct_define_own)

lemma values_obj_set: "snd ` set (own (obj_set ob k v)) \<subseteq> insert v (snd ` set (own ob))"
proof (rule disjE [OF own_obj_set_cases [of ob k v]])
  assume "own (obj_set ob k v) = own ob"
  then show ?thesis by (simp add: subset_insertI)
next
  assume "own (obj_set ob k v) = define_own (own ob) k v"
  then show ?thesis by (simp add: values_define_own)
qed

lemma key_set_obj_set: "fst ` set (own (obj_set ob k v)) \<subseteq> insert k (fst ` set (own ob))"
proof (rule disjE [OF own_obj_set_cases [of ob k v]])
  assume "own (obj_set ob k v) = own ob"
  then show ?thesis by (simp add: subset_insertI)
next
  assume "own (obj_set ob k v) = define_own (own ob) k v"
  then show ?thesis by (simp add: key_set_define_own)
qed

lemma proto_key_inherited: "proto_key \<in> set object_prototype_names"
  by (simp add: proto_key_def object_prototype_names_def)

lemma assign_collections_lookup:
  assumes "proto_key \<notin> fst ` set gs" and "distinct (map fst gs)"
  shows "prototype (assign_collections ob gs) = prototype ob
         \<and> (\<forall>c. map_of (own (assign_collections ob gs)) c =
                (case map_of gs c of
                   Some rows \<Rightarrow> Some (Obj (Object_fromEntries rows))
                 | None \<Rightarrow> map_of (own ob) c))"
  using assms
proof (induction gs arbitrary: ob)
  case Nil
  then show ?case by simp
next
  case (Cons g gs)
  obtain c0 rows0 where g: "g = (c0, rows0)" by (cases g)
  from Cons.prems g have c0: "c0 \<noteq> proto_key" and fresh: "c0 \<notin> fst ` set gs"
    and rest: "proto_key \<notin> fst ` set gs" "distinct (map fst gs)"
    by auto
  let ?ob = "obj_set ob c0 (Obj (Object_fromEntries rows0))"
  from c0 have ob': "?ob = ob\<lparr>own := define_own (own ob) c0 (Obj (Object_fromEntries rows0))\<rparr>"
    by (simp add: obj_set_define)
  from fresh have none: "map_of gs c0 = None" by (simp add: map_of_eq_None_iff)
  from Cons.IH [OF rest, of ?ob] ob' none g
  show ?case by (auto simp: map_of_define_own split: option.splits)
qed

lemma Object_assign_lookup:
  assumes "proto_key \<notin> fst ` set (own ob)"
    and "inherits_proto_setter (prototype ob) \<or> proto_key \<notin> fst ` set src"
    and "distinct (map fst src)"
  shows "map_of (own (Object_assign ob src)) k =
           (if k \<noteq> proto_key \<and> k \<in> fst ` set src then map_of src k else map_of (own ob) k)"
  using assms
proof (induction src arbitrary: ob)
  case Nil
  then show ?case by simp
next
  case (Cons e src)
  obtain k0 v0 where e: "e = (k0, v0)" by (cases e)
  from Cons.prems(3) e have fresh: "k0 \<notin> fst ` set src" and dist: "distinct (map fst src)"
    by auto
  show ?case
  proof (cases "k0 = proto_key")
    case True
    with Cons.prems(2) e have inh: "inherits_proto_setter (prototype ob)" by auto
    have own_eq: "own (obj_set ob k0 v0) = own ob"
      using True Cons.prems(1) inh by (simp add: own_obj_set_proto)
    from True fresh have no_proto: "proto_key \<notin> fst ` set src" by simp
    have "map_of (own (Object_assign (obj_set ob k0 v0) src)) k =
           (if k \<noteq> proto_key \<and> k \<in> fst ` set src then map_of src k
            else map_of (own (obj_set ob k0 v0)) k)"
      using Cons.IH [of "obj_set ob k0 v0"] own_eq Cons.prems(1) no_proto dist by simp
    with own_eq e True show ?thesis by auto
  next
    case False
    then have ob': "obj_set ob k0 v0 = ob\<lparr>own := define_own (own ob) k0 v0\<rparr>"
      by (simp add: obj_set_define)
    have a1: "proto_key \<notin> fst ` set (own (obj_set ob k0 v0))"
      using False Cons.prems(1) by (auto simp: ob' key_set_define_own)
    have a2: "inherits_proto_setter (prototype (obj_set ob k0 v0)) \<or> proto_key \<notin> fst ` set src"
      using False Cons.prems(2) e by (auto simp: ob')
    have "map_of (own (Object_assign (obj_set ob k0 v0) src)) k =
           (if k \<noteq> proto_key \<and> k \<in> fst ` set src then map_of src k
            else map_of (own (obj_set ob k0 v0)) k)"
      by (rule Cons.IH [OF a1 a2 dist])
    with e False fresh show ?thesis
      by (auto simp: ob' map_of_define_own)
  qed
qed

lemma distinct_assign_collections:
  "distinct (map fst (own ob)) \<Longrightarrow> distinct (map fst (own (assign_collections ob gs)))"
proof (induction gs arbitrary: ob)
  case Nil
  then show ?case by simp
next
  case (Cons g gs)
  obtain c0 rows0 where g: "g = (c0, rows0)" by (cases g)
  with Cons show ?case by (simp add: distinct_obj_set)
qed

lemma distinct_Object_assign:
  "distinct (map fst (own ob)) \<Longrightarrow> distinct (map fst (own (Object_assign ob src)))"
proof (induction src arbitrary: ob)
  case Nil
  then show ?case by simp
next
  case (Cons e src)
  obtain k0 v0 where e: "e = (k0, v0)" by (cases e)
  with Cons show ?case by (simp add: distinct_obj_set)
qed

lemma shallow_obj_set:
  assumes "\<forall>x \<in> snd ` set (own ob). shallow_value x" and "shallow_value v"
  shows "\<forall>x \<in> snd ` set (own (obj_set ob k v)). shallow_value x"
proof
  fix x
  assume "x \<in> snd ` set (own (obj_set ob k v))"
  with values_obj_set [of ob k v] have "x \<in> insert v (snd ` set (own ob))" by (rule subsetD)
  with assms show "shallow_value x" by auto
qed

lemma shallow_assign_collections:
  "\<forall>v \<in> snd ` set (own ob). shallow_value v
     \<Longrightarrow> \<forall>v \<in> snd ` set (own (assign_collections ob gs)). shallow_value v"
proof (induction gs arbitrary: ob)
  case Nil
  then show ?case by simp
next
  case (Cons g gs)
  obtain c0 rows0 where g: "g = (c0, rows0)" by (cases g)
  have "shallow_value (Obj (Object_fromEntries rows0))"
    by (simp add: shallow_value_def distinct_Object_fromEntries)
  with Cons.prems
  have "\<forall>v \<in> snd ` set (own (obj_set ob c0 (Obj (Object_fromEntries rows0)))). shallow_value v"
    by (rule shallow_obj_set)
  then have "\<forall>v \<in> snd ` set (own (assign_collections
                 (obj_set ob c0 (Obj (Object_fromEntries rows0))) gs)). shallow_value v"
    by (rule Cons.IH)
  then show ?case unfolding g by simp
qed

lemma shallow_Object_assign:
  "\<forall>v \<in> snd ` set (own ob). shallow_value v \<Longrightarrow> \<forall>v \<in> snd ` set src. shallow_value v
     \<Longrightarrow> \<forall>v \<in> snd ` set (own (Object_assign ob src)). shallow_value v"
proof (induction src arbitrary: ob)
  case Nil
  then show ?case by simp
next
  case (Cons e src)
  obtain k0 v0 where e: "e = (k0, v0)" by (cases e)
  from Cons.prems(2) e have v0: "shallow_value v0" and rest: "\<forall>v \<in> snd ` set src. shallow_value v"
    by simp_all
  from Cons.prems(1) v0 have "\<forall>v \<in> snd ` set (own (obj_set ob k0 v0)). shallow_value v"
    by (rule shallow_obj_set)
  then have "\<forall>v \<in> snd ` set (own (Object_assign (obj_set ob k0 v0) src)). shallow_value v"
    using rest by (rule Cons.IH)
  then show ?case unfolding e by simp
qed

lemma distinct_build_result: "distinct (map fst (own (build_result st)))"
  by (simp add: build_result_def distinct_Object_assign distinct_assign_collections empty_object_def)

lemma shallow_build_result: "\<forall>v \<in> snd ` set (own (build_result st)). shallow_value v"
proof -
  have "\<forall>v \<in> snd ` set (Object_fromEntries (snd st)). shallow_value v"
    using values_Object_fromEntries [of "snd st"] by (auto simp: shallow_value_def)
  then show ?thesis
    unfolding build_result_def
    by (intro shallow_Object_assign shallow_assign_collections) (simp_all add: empty_object_def)
qed

lemma build_result_lookup:
  assumes "fst ` set g \<inter> set object_prototype_names = {}" and "distinct (map fst g)"
  shows "map_of (own (build_result (g, f))) k =
           (if k \<noteq> proto_key \<and> k \<in> (\<lambda>e. to_property_key (fst e)) ` set f
            then map_of (rev (map stored_entry f)) k
            else map_option (\<lambda>es. Obj (Object_fromEntries es)) (map_of g k))"
proof -
  let ?r1 = "assign_collections empty_object g"
  from assms(1) proto_key_inherited have no_proto: "proto_key \<notin> fst ` set g" by auto
  from assign_collections_lookup [OF no_proto assms(2), of empty_object]
  have p1: "prototype ?r1 = Object_prototype"
    and l1: "\<And>c. map_of (own ?r1) c = map_option (\<lambda>es. Obj (Object_fromEntries es)) (map_of g c)"
    by (simp_all add: empty_object_def split: option.splits)
  from no_proto have "map_of g proto_key = None" by (simp add: map_of_eq_None_iff)
  with l1 [of proto_key] have "map_of (own ?r1) proto_key = None" by simp
  then have a1: "proto_key \<notin> fst ` set (own ?r1)" by (simp add: map_of_eq_None_iff)
  from p1 have a2: "inherits_proto_setter (prototype ?r1) \<or> proto_key \<notin> fst ` set (Object_fromEntries f)"
    by simp
  from Object_assign_lookup [OF a1 a2 distinct_Object_fromEntries, of k]
  show ?thesis
    by (simp add: build_result_def l1 key_set_Object_fromEntries map_of_Object_fromEntries)
qed

subsection \<open>The batch pass writes each coerced value back to its own place\<close>

lemma batchParseValues_map: "batchParseValues p vs = map (parseValue p) vs"
  by (simp add: batchParseValues_def parseValue_def)

lemma element_at_middle: "element_at (xs @ y # ys) (length xs) = y"
  by (simp add: element_at_def)

lemma assign_members_aligned:
  assumes "distinct (map fst (pre @ rest))"
  shows "assign_members (xs @ map (parseValue p) (map snd rest) @ ys) (map fst rest)
           (Obj (pre @ rest), length xs)
         = (Obj (pre @ map (\<lambda>(k, x). (k, parseValue p x)) rest), length xs + length rest)"
  using assms
proof (induction rest arbitrary: pre xs)
  case Nil
  then show ?case by simp
next
  case (Cons e rest)
  obtain k v where e: "e = (k, v)" by (cases e)
  from Cons.prems e have fresh: "k \<notin> fst ` set pre" by auto
  from Cons.prems e have dist: "distinct (map fst ((pre @ [(k, parseValue p v)]) @ rest))" by auto
  have step: "set_member (Obj (pre @ (k, v) # rest)) k (parseValue p v)
                = Obj ((pre @ [(k, parseValue p v)]) @ rest)"
    using fresh by (simp add: define_own_split)
  have elem: "element_at (xs @ map (parseValue p) (map snd (e # rest)) @ ys) (length xs) = parseValue p v"
    using e by (simp add: element_at_def)
  have "assign_members (xs @ map (parseValue p) (map snd (e # rest)) @ ys) (map fst (e # rest))
           (Obj (pre @ e # rest), length xs)
        = assign_members ((xs @ [parseValue p v]) @ map (parseValue p) (map snd rest) @ ys) (map fst rest)
           (Obj ((pre @ [(k, parseValue p v)]) @ rest), length (xs @ [parseValue p v]))"
    using elem step e by simp
  also have "\<dots> = (Obj ((pre @ [(k, parseValue p v)]) @ map (\<lambda>(k, x). (k, parseValue p x)) rest),
                   length (xs @ [parseValue p v]) + length rest)"
    by (rule Cons.IH [OF dist])
  finally show ?case using e by simp
qed

lemma all_values_Cons:
  "all_values ((k, v) # rest) = (if instanceof_Object v then Object_values v else [v]) @ all_values rest"
  by (simp add: all_values_def)

lemma coerce_each_spec_Cons:
  "coerce_each_spec p ((k, v) # rest) = (k, coerce_value_spec p v) # coerce_each_spec p rest"
  by (simp add: coerce_each_spec_def)

lemma map_of_split_fresh: "k \<notin> fst ` set pre \<Longrightarrow> map_of (pre @ (k, v) # rest) k = Some v"
  by (induction pre) auto

lemma assign_parsed_aligned:
  assumes "distinct (map fst (pre @ rest))" and "\<forall>v \<in> snd ` set rest. shallow_value v"
  shows "assign_parsed (xs @ map (parseValue p) (all_values rest) @ ys) (map fst rest)
           (pre @ rest, length xs)
         = (pre @ coerce_each_spec p rest, length xs + length (all_values rest))"
  using assms
proof (induction rest arbitrary: pre xs)
  case Nil
  then show ?case by (simp add: all_values_def coerce_each_spec_def)
next
  case (Cons e rest)
  obtain k v where e: "e = (k, v)" by (cases e)
  from Cons.prems(1) e have fresh: "k \<notin> fst ` set pre" by auto
  from Cons.prems(2) e have sv: "shallow_value v" and srest: "\<forall>v \<in> snd ` set rest. shallow_value v"
    by simp_all
  have look: "map_of (pre @ (k, v) # rest) k = Some v"
    using fresh by (rule map_of_split_fresh)
  have dist: "distinct (map fst ((pre @ [(k, w)]) @ rest))" for w
    using Cons.prems(1) e by auto
  let ?pv = "xs @ map (parseValue p) (all_values (e # rest)) @ ys"
  show ?case
  proof (cases v)
    case (P prim)
    let ?w = "parseValue p v"
    have pv: "?pv = (xs @ [?w]) @ map (parseValue p) (all_values rest) @ ys"
      using e P by (simp add: all_values_Cons)
    have elem: "element_at ?pv (length xs) = ?w"
      using e P by (simp add: all_values_Cons element_at_def)
    have "assign_parsed ?pv (map fst (e # rest)) (pre @ e # rest, length xs)
            = assign_parsed ?pv (map fst rest) ((pre @ [(k, ?w)]) @ rest, length (xs @ [?w]))"
      using e P look elem fresh by (simp add: define_own_split)
    also have "\<dots> = ((pre @ [(k, ?w)]) @ coerce_each_spec p rest,
                     length (xs @ [?w]) + length (all_values rest))"
      unfolding pv by (rule Cons.IH [OF dist srest])
    finally show ?thesis
      using e P by (simp add: coerce_each_spec_Cons coerce_value_spec_def all_values_Cons)
  next
    case (Obj members)
    let ?w = "Obj (map (\<lambda>(k, x). (k, parseValue p x)) members)"
    let ?ms = "map (parseValue p) (map snd members)"
    from sv Obj have dm: "distinct (map fst ([] @ members))" by (simp add: shallow_value_def)
    have pv: "?pv = (xs @ ?ms) @ map (parseValue p) (all_values rest) @ ys"
      using e Obj by (simp add: all_values_Cons)
    have pv': "?pv = xs @ map (parseValue p) (map snd members) @ (map (parseValue p) (all_values rest) @ ys)"
      using e Obj by (simp add: all_values_Cons)
    have inner: "assign_members ?pv (Object_keys v) (v, length xs) = (?w, length xs + length members)"
      unfolding pv' using assign_members_aligned [OF dm, of xs p] Obj by simp
    have "assign_parsed ?pv (map fst (e # rest)) (pre @ e # rest, length xs)
            = assign_parsed ?pv (map fst rest) ((pre @ [(k, ?w)]) @ rest, length (xs @ ?ms))"
      using e Obj look inner fresh by (simp add: define_own_split)
    also have "\<dots> = ((pre @ [(k, ?w)]) @ coerce_each_spec p rest,
                     length (xs @ ?ms) + length (all_values rest))"
      unfolding pv by (rule Cons.IH [OF dist srest])
    finally show ?thesis
      using e Obj by (simp add: coerce_each_spec_Cons coerce_value_spec_def all_values_Cons)
  next
    case (Arr items)
    with sv show ?thesis by (simp add: shallow_value_def)
  qed
qed

lemma coerce_batch_each:
  assumes "distinct (map fst result)" and "\<forall>v \<in> snd ` set result. shallow_value v"
  shows "coerce_batch p result = coerce_each_spec p result"
proof -
  from assms(1) have d: "distinct (map fst ([] @ result))" by simp
  have "assign_parsed ([] @ map (parseValue p) (all_values result) @ []) (map fst result)
          ([] @ result, length ([] :: jsval list))
        = ([] @ coerce_each_spec p result, length ([] :: jsval list) + length (all_values result))"
    by (rule assign_parsed_aligned [OF d assms(2)])
  then show ?thesis by (simp add: coerce_batch_def batchParseValues_map)
qed

lemma createContextJSON_try_Inr:
  "createContextJSON_try p (Some rows) = Inr out \<longleftrightarrow>
     (\<exists>st. scan_rows ([], []) (drop 1 rows) = Inr st \<and> out = coerce_each_spec p (own (build_result st)))"
  by (auto simp: createContextJSON_try_def coerce_batch_each distinct_build_result shallow_build_result
           split: sum.splits)

lemma map_of_coerce_each_spec:
  "map_of (coerce_each_spec p result) k = map_option (coerce_value_spec p) (map_of result k)"
  by (induction result) (auto simp: coerce_each_spec_def)

lemma keys_coerce_each_spec: "map fst (coerce_each_spec p result) = map fst result"
  by (induction result) (auto simp: coerce_each_spec_def)

subsection \<open>When the body raises\<close>

lemma createContextJSON_try_Inl:
  "(\<exists>e. createContextJSON_try p data = Inl e) \<longleftrightarrow>
     (data = None \<or> (\<exists>rows. data = Some rows \<and> (\<exists>r \<in> set (drop 1 rows). row_raises r)))"
proof (cases data)
  case None
  then show ?thesis by (simp add: createContextJSON_try_def)
next
  case (Some rows)
  have inv: "fst ` set ([] :: (string \<times> entries) list) \<inter> set object_prototype_names = {}" by simp
  show ?thesis
  proof (cases "\<exists>r \<in> set (drop 1 rows). row_raises r")
    case True
    then have "scan_rows ([], []) (drop 1 rows) = Inl TypeError"
      by (rule scan_rows_raises [OF inv])
    with True Some show ?thesis by (simp add: createContextJSON_try_def)
  next
    case False
    have "row_raises None" by (simp add: row_raises_def)
    with False have all_some: "\<forall>r \<in> set (drop 1 rows). r \<noteq> None"
      by metis
    then have eq: "drop 1 rows = map Some (map the (drop 1 rows))"
      by (simp add: map_idI)
    from False have ok: "\<forall>r \<in> set (map the (drop 1 rows)). \<not> row_raises (Some r)"
      using all_some by auto
    from scan_rows_ok [OF inv ok, of "[]"] eq
    obtain g' where "scan_rows ([], []) (drop 1 rows) = Inr (g', [] @ bare_entries (map the (drop 1 rows)))"
      by auto
    with False Some show ?thesis by (simp add: createContextJSON_try_def)
  qed
qed

subsection \<open>The tree of a grid whose rows can all be destructured\<close>

lemma coerce_value_spec_P [simp]: "coerce_value_spec p (P v) = parseValue p (P v)"
  by (simp add: coerce_value_spec_def)

lemma coerce_value_spec_Obj [simp]:
  "coerce_value_spec p (Obj members) = Obj (map (\<lambda>(k, x). (k, parseValue p x)) members)"
  by (simp add: coerce_value_spec_def)

lemma scan_rows_grid:
  assumes "\<forall>r \<in> set rows. \<not> row_raises (Some r)"
  shows "\<exists>g. scan_rows ([], []) (map Some rows) = Inr (g, bare_entries rows)
           \<and> distinct (map fst g)
           \<and> fst ` set g \<inter> set object_prototype_names = {}
           \<and> (\<forall>c. map_of g c = (if collection_entries c rows = [] then None
                                  else Some (collection_entries c rows)))"
proof -
  have inv: "fst ` set ([] :: (string \<times> entries) list) \<inter> set object_prototype_names = {}" by simp
  have d: "distinct (map fst ([] :: (string \<times> entries) list))" by simp
  from scan_rows_ok [OF inv assms d, of "[]"] show ?thesis by simp
qed

lemma map_of_stored_bare_P:
  "map_of (rev (map stored_entry es)) k = Some x \<Longrightarrow> \<exists>e \<in> set es. to_property_key (fst e) = k \<and> x = P (snd e)"
proof -
  assume "map_of (rev (map stored_entry es)) k = Some x"
  then have "(k, x) \<in> set (rev (map stored_entry es))" by (rule map_of_SomeD)
  then show ?thesis by (auto simp: stored_entry_def)
qed

lemma createContextJSON_grid:
  assumes "\<forall>r \<in> set rows. \<not> row_raises (Some r)"
  shows "createContextJSON_try p (Some (h # map Some rows))
           = Inr (createContextJSON p (Some (h # map Some rows)))"
    and "map_of (createContextJSON p (Some (h # map Some rows))) k =
           (if k \<noteq> proto_key \<and> k \<in> (\<lambda>e. to_property_key (fst e)) ` set (bare_entries rows)
            then map_option (parseValue p) (map_of (rev (map stored_entry (bare_entries rows))) k)
            else if collection_entries k rows = [] then None
            else Some (Obj (map (\<lambda>(k', x). (k', parseValue p x))
                              (Object_fromEntries (collection_entries k rows)))))"
proof -
  from scan_rows_grid [OF assms] obtain g where
    scan: "scan_rows ([], []) (map Some rows) = Inr (g, bare_entries rows)"
    and d: "distinct (map fst g)"
    and inv: "fst ` set g \<inter> set object_prototype_names = {}"
    and look: "\<And>c. map_of g c = (if collection_entries c rows = [] then None
                                  else Some (collection_entries c rows))"
    by blast
  let ?tree = "own (build_result (g, bare_entries rows))"
  have try_eq: "createContextJSON_try p (Some (h # map Some rows)) = Inr (coerce_each_spec p ?tree)"
    using scan by (simp add: createContextJSON_try_Inr)
  then have out: "createContextJSON p (Some (h # map Some rows)) = coerce_each_spec p ?tree"
    by (simp add: createContextJSON_def)
  show "createContextJSON_try p (Some (h # map Some rows))
           = Inr (createContextJSON p (Some (h # map Some rows)))"
    using try_eq out by simp
  have bare_P: "map_option (coerce_value_spec p) (map_of (rev (map stored_entry (bare_entries rows))) k)
                  = map_option (parseValue p) (map_of (rev (map stored_entry (bare_entries rows))) k)"
  proof (cases "map_of (rev (map stored_entry (bare_entries rows))) k")
    case None
    then show ?thesis by simp
  next
    case (Some x)
    from map_of_stored_bare_P [OF Some] obtain e where "x = P (snd e)" by auto
    with Some show ?thesis by simp
  qed
  show "map_of (createContextJSON p (Some (h # map Some rows))) k =
           (if k \<noteq> proto_key \<and> k \<in> (\<lambda>e. to_property_key (fst e)) ` set (bare_entries rows)
            then map_option (parseValue p) (map_of (rev (map stored_entry (bare_entries rows))) k)
            else if collection_entries k rows = [] then None
            else Some (Obj (map (\<lambda>(k', x). (k', parseValue p x))
                              (Object_fromEntries (collection_entries k rows)))))"
    unfolding out map_of_coerce_each_spec build_result_lookup [OF inv d]
    using bare_P by (simp add: look)
qed


subsection \<open>The last entry for a key wins\<close>

lemma map_of_rev_last:
  "k \<notin> fst ` set ys \<Longrightarrow> map_of (rev (xs @ (k, v) # ys)) k = Some v"
proof -
  assume "k \<notin> fst ` set ys"
  then have "k \<notin> fst ` set (rev ys)" by simp
  then have "map_of (rev ys @ (k, v) # rev xs) k = Some v" by (rule map_of_split_fresh)
  then show ?thesis by simp
qed

lemma bare_entries_append: "bare_entries (xs @ ys) = bare_entries xs @ bare_entries ys"
  by (simp add: bare_entries_def)

lemma collection_entries_append:
  "collection_entries c (xs @ ys) = collection_entries c xs @ collection_entries c ys"
  by (simp add: collection_entries_def)




lemma key_set_stored: "fst ` set (map stored_entry es) = (\<lambda>e. to_property_key (fst e)) ` set es"
  by (simp add: image_image stored_entry_def)



subsection \<open>Enumeration order without array indices\<close>

lemma from_entries_into_plain:
  assumes "distinct (map fst ps @ map (\<lambda>e. to_property_key (fst e)) es)"
    and "\<forall>e \<in> set es. array_index (to_property_key (fst e)) = None"
  shows "from_entries_into ps es = ps @ map stored_entry es"
  using assms
proof (induction es arbitrary: ps)
  case Nil
  then show ?case by simp
next
  case (Cons e es)
  obtain k v where e: "e = (k, v)" by (cases e)
  from Cons.prems e have fresh: "to_property_key k \<notin> fst ` set ps"
    and plain: "array_index (to_property_key k) = None"
    by auto
  then have step: "define_own ps (to_property_key k) (P v) = ps @ [(to_property_key k, P v)]"
    by (rule define_own_fresh_plain)
  from Cons.prems(1) e
  have d: "distinct (map fst (ps @ [(to_property_key k, P v)]) @ map (\<lambda>e. to_property_key (fst e)) es)"
    by auto
  from Cons.prems(2) have rest: "\<forall>e \<in> set es. array_index (to_property_key (fst e)) = None" by simp
  show ?case
    unfolding e from_entries_into.simps step Cons.IH [OF d rest] by simp
qed

lemma Object_fromEntries_plain:
  assumes "distinct (map (\<lambda>e. to_property_key (fst e)) es)"
    and "\<forall>e \<in> set es. array_index (to_property_key (fst e)) = None"
  shows "Object_fromEntries es = map stored_entry es"
  using from_entries_into_plain [of "[]" es] assms by (simp add: Object_fromEntries_def)


subsection \<open>Where the entries of the output come from\<close>

lemma stored_entry_member:
  "(k, x) \<in> set (map stored_entry es) \<Longrightarrow> \<exists>e \<in> set es. to_property_key (fst e) = k \<and> x = P (snd e)"
  by (auto simp: stored_entry_def)

lemma Object_fromEntries_member:
  assumes "(k, x) \<in> set (Object_fromEntries es)"
  shows "\<exists>e \<in> set es. to_property_key (fst e) = k \<and> x = P (snd e)"
proof -
  from assms distinct_Object_fromEntries [of es] have "map_of (Object_fromEntries es) k = Some x"
    by simp
  then have "map_of (rev (map stored_entry es)) k = Some x"
    by (simp add: map_of_Object_fromEntries)
  then show ?thesis by (rule map_of_stored_bare_P)
qed

lemma grid_shape:
  assumes "\<not> (\<exists>r \<in> set (drop 1 rows). row_raises r)" and "rows \<noteq> []"
  shows "\<exists>h cells. rows = h # map Some cells \<and> set cells = {c. Some c \<in> set (drop 1 rows)}
           \<and> (\<forall>r \<in> set cells. \<not> row_raises (Some r))"
proof -
  from assms(2) obtain h t where rows: "rows = h # t" by (cases rows) auto
  have "row_raises None" by (simp add: row_raises_def)
  moreover from assms(1) rows have nr: "\<forall>r \<in> set t. \<not> row_raises r" by simp
  ultimately have all_some: "\<forall>r \<in> set t. r \<noteq> None" by metis
  then have t: "t = map Some (map the t)" by (simp add: map_idI)
  have s: "set (map the t) = {c. Some c \<in> set t}"
  proof (rule set_eqI)
    fix c
    show "c \<in> set (map the t) \<longleftrightarrow> c \<in> {c. Some c \<in> set t}"
      using all_some by (force simp: image_iff)
  qed
  have "\<forall>r \<in> set (map the t). \<not> row_raises (Some r)"
    unfolding s using nr by blast
  with rows t s show ?thesis by (metis drop0 drop_Suc_Cons One_nat_def)
qed

subsection \<open>getRowData as a sequence of entries\<close>

lemma reduce_headers_entries:
  assumes "\<forall>h \<in> set hs. to_property_key h \<noteq> proto_key"
  shows "reduce_headers row ob i hs =
           ob\<lparr>own := from_entries_into (own ob) (zip hs (map (cell_at row) [i..<i + length hs]))\<rparr>"
  using assms
proof (induction hs arbitrary: ob i)
  case Nil
  then show ?case by simp
next
  case (Cons h hs)
  from Cons.prems have h: "to_property_key h \<noteq> proto_key"
    and rest: "\<forall>h \<in> set hs. to_property_key h \<noteq> proto_key"
    by simp_all
  have step: "obj_set ob (to_property_key h) (P (cell_at row i))
                = ob\<lparr>own := define_own (own ob) (to_property_key h) (P (cell_at row i))\<rparr>"
    using h by (simp add: obj_set_define)
  have "i < i + length (h # hs)" by simp
  then have "[i..<i + length (h # hs)] = i # [Suc i..<i + length (h # hs)]"
    by (rule upt_conv_Cons)
  then have range: "[i..<i + length (h # hs)] = i # [Suc i..<Suc i + length hs]"
    by simp
  show ?case
    unfolding reduce_headers.simps step Cons.IH [OF rest] range by simp
qed

lemma getRowData_entries:
  assumes "\<forall>h \<in> set hs. to_property_key h \<noteq> proto_key"
  shows "getRowData (Some hs) (Some row)
           = Object_fromEntries (zip hs (map (cell_at row) [0..<length hs]))"
  using reduce_headers_entries [OF assms, of row empty_object 0]
  by (simp add: getRowData_def getRowData_try_def Object_fromEntries_def empty_object_def)

lemma positions_split:
  "[0..<length (before @ h # after)]
     = [0..<length before] @ length before # [Suc (length before)..<Suc (length before) + length after]"
proof -
  have "[0..<length before + Suc (length after)]
          = [0..<length before] @ [length before..<length before + Suc (length after)]"
    by (rule upt_add_eq_append) simp
  moreover have "[length before..<length before + Suc (length after)]
          = length before # [Suc (length before)..<length before + Suc (length after)]"
    by (rule upt_conv_Cons) simp
  ultimately show ?thesis by simp
qed

lemma zip_positions_split:
  "zip (before @ h # after) (map f [0..<length (before @ h # after)])
     = zip before (map f [0..<length before]) @ (h, f (length before))
         # zip after (map f [Suc (length before)..<Suc (length before) + length after])"
  unfolding positions_split by (simp add: zip_append del: upt_Suc)

lemma zip_keys_subset: "(\<lambda>e. to_property_key (fst e)) ` set (zip hs vs) \<subseteq> to_property_key ` set hs"
  by (auto dest: set_zip_leftD)

lemma zip_positions_keys:
  "(\<lambda>e. to_property_key (fst e)) ` set (zip hs (map f [i..<i + length hs])) = to_property_key ` set hs"
proof -
  have "map fst (zip hs (map f [i..<i + length hs])) = hs" by simp
  then have "fst ` set (zip hs (map f [i..<i + length hs])) = set hs" by (metis set_map)
  then show ?thesis by (metis image_image)
qed

subsection \<open>createEpicsJSON copies the fields that are present\<close>





lemma row_raises_cases:
  "row_raises r \<longleftrightarrow>
     r = None
     \<or> (\<exists>cells. r = Some cells \<and> row_kept cells \<and> truthy (row_collection cells)
           \<and> to_property_key (row_collection cells) \<in> set object_prototype_names)"
  by (cases r) (simp_all add: row_raises_def)

section \<open>The examples of the source\<close>

text \<open>
  The model on the documented example of \<open>createContextJSON\<close>, which is also the first test
  case of \<open>testCreateContextJSON\<close>. The collection objects are stored before the bare
  entries are merged, so \<open>Key3\<close> enumerates last.
\<close>

lemma createContextJSON_documented_example:
  "createContextJSON sample_JSON_parse
     (Some [Some [Str ''Header A'', Str ''Header B'', Str ''Header C'', Str ''Header D'',
                  Str ''Header E'', Str ''Header F'', Str ''Header G''],
            Some [Str ''Collection1'', Str [], Str [], Str ''Key1'', Str [], Str [], Str ''Value1''],
            Some [Str ''Collection1'', Str [], Str [], Str ''Key2'', Str [], Str [], Str ''Value2''],
            Some [Str [], Str [], Str [], Str ''Key3'', Str [], Str [], Str ''Value3''],
            Some [Str ''Collection2'', Str [], Str [], Str ''Key4'', Str [], Str [],
                  Str ''{\"nestedKey\": \"nestedValue\"}'']])
   = [(''Collection1'', Obj [(''Key1'', P (Str ''Value1'')), (''Key2'', P (Str ''Value2''))]),
      (''Collection2'', Obj [(''Key4'', Obj [(''nestedKey'', P (Str ''nestedValue''))])]),
      (''Key3'', P (Str ''Value3''))]"
  by (simp add: createContextJSON_def createContextJSON_try_def coerce_batch_def build_result_def
      all_values_def batchParseValues_def element_at_def Object_fromEntries_def define_own_def
      array_index_def digit_of_def obj_set_def empty_object_def get_property_def
      object_prototype_names_def proto_key_def row_kept_def row_key_def row_value_def
      row_collection_def cell_at_def sample_JSON_parse_def)

text \<open>The second test case, \<open>Empty rows and missing values\<close>.\<close>

lemma createContextJSON_missing_values:
  "createContextJSON sample_JSON_parse
     (Some [Some [Str ''Header A'', Str ''Header B'', Str ''Header C'', Str ''Header D'',
                  Str ''Header E'', Str ''Header F'', Str ''Header G''],
            Some [Str [], Str [], Str [], Str [], Str [], Str [], Str []],
            Some [Str ''Collection1'', Str [], Str [], Str ''Key1'', Str [], Str [], Str []],
            Some [Str [], Str [], Str [], Str ''Key2'', Str [], Str [], Str ''Value2''],
            Some [Str [], Str [], Str [], Str [], Str [], Str [], Str ''Value3'']])
   = [(''Key2'', P (Str ''Value2''))]"
  by (simp add: createContextJSON_def createContextJSON_try_def coerce_batch_def build_result_def
      all_values_def batchParseValues_def element_at_def Object_fromEntries_def define_own_def
      array_index_def digit_of_def obj_set_def empty_object_def get_property_def
      object_prototype_names_def proto_key_def row_kept_def row_key_def row_value_def
      row_collection_def cell_at_def sample_JSON_parse_def)

text \<open>The test case of \<open>testCreateEpicsJSON\<close>: no trigger, nothing empty.\<close>

lemma createEpicsJSON_test_case:
  "createEpicsJSON
     (Some [(''Event Name'', P (Str ''Test Event'')), (''Date'', P (Str ''2023-05-01'')),
            (''Description'', P (Str ''Test Description''))])
     (Obj [(''Context1'', Obj [(''SubContext1'', P (Str ''Value1''))]),
           (''Context2'', Obj [(''SubContext2'', P (Str ''Value2''))])])
     None
   = [(''context'', Obj [(''Context1'', Obj [(''SubContext1'', P (Str ''Value1''))]),
                         (''Context2'', Obj [(''SubContext2'', P (Str ''Value2''))])]),
      (''eventData'', Obj [(''Event Name'', P (Str ''Test Event'')), (''Date'', P (Str ''2023-05-01'')),
                           (''Description'', P (Str ''Test Description''))])]"
  by (simp add: createEpicsJSON_def createEpicsJSON_try_def trigger_fields_def obj_set_def
      define_own_def empty_object_def proto_key_def array_index_def digit_of_def)

text \<open>
  The test \<open>testIsExtractTodoSummariesTrigger\<close> expects \<open>true\<close> for the value
  \<open>Extract ToDo Summaries\<close>; the function tests for \<open>Groom EPIC\<close> and answers \<open>false\<close>.
\<close>

lemma isExtractTodoSummariesTrigger_test_case:
  "\<not> isExtractTodoSummariesTrigger \<lparr>getColumn = 10, getValue = Str ''Extract ToDo Summaries''\<rparr>"
  by (simp add: isExtractTodoSummariesTrigger_def)

section \<open>The claims\<close>

text \<open>The definitions unfolded to run the model on a concrete input.\<close>

lemmas run_defs =
  createContextJSON_def createContextJSON_try_def coerce_batch_def build_result_def
  all_values_def batchParseValues_def element_at_def Object_fromEntries_def define_own_def
  array_index_def digit_of_def obj_set_def empty_object_def get_property_def
  object_prototype_names_def proto_key_def row_kept_def row_key_def row_value_def
  row_collection_def cell_at_def sample_JSON_parse_def parseValue_def

lemmas row_defs =
  getRowData_def getRowData_try_def obj_set_def define_own_def empty_object_def proto_key_def
  array_index_def digit_of_def cell_at_def







text \<open>
  C3. \<open>createContextJSON\<close> returns for every argument: either the body completes and its
  tree is returned, or the body raises and \<open>{}\<close> is returned. The body raises exactly
  when the argument is \<open>null\<close> or \<open>undefined\<close>, or a row after the header cannot be
  destructured, or a row that passes the guard names a collection whose name
  \<open>Object.prototype\<close> supplies. In particular the result for \<open>null\<close> is \<open>{}\<close>, and so is
  the result for the empty grid.
\<close>

theorem createContextJSON_never_raises:
  "(case createContextJSON_try p data of
      Inl e \<Rightarrow> createContextJSON p data = []
    | Inr out \<Rightarrow> createContextJSON p data = out)
   \<and> ((\<exists>e. createContextJSON_try p data = Inl e) \<longleftrightarrow>
        (data = None
         \<or> (\<exists>rows. data = Some rows
               \<and> (\<exists>r \<in> set (drop 1 rows).
                      r = None
                      \<or> (\<exists>cells. r = Some cells \<and> row_kept cells \<and> truthy (row_collection cells)
                            \<and> to_property_key (row_collection cells) \<in> set object_prototype_names)))))
   \<and> createContextJSON p None = []
   \<and> createContextJSON p (Some []) = []"
proof (intro conjI)
  show "case createContextJSON_try p data of
          Inl e \<Rightarrow> createContextJSON p data = []
        | Inr out \<Rightarrow> createContextJSON p data = out"
    by (simp add: createContextJSON_def split: sum.splits)
  show "(\<exists>e. createContextJSON_try p data = Inl e) \<longleftrightarrow>
        (data = None
         \<or> (\<exists>rows. data = Some rows
               \<and> (\<exists>r \<in> set (drop 1 rows).
                      r = None
                      \<or> (\<exists>cells. r = Some cells \<and> row_kept cells \<and> truthy (row_collection cells)
                            \<and> to_property_key (row_collection cells) \<in> set object_prototype_names))))"
    unfolding createContextJSON_try_Inl row_raises_cases ..
  show "createContextJSON p None = []"
    by (simp add: createContextJSON_def createContextJSON_try_def)
  show "createContextJSON p (Some []) = []"
    by (simp add: createContextJSON_def createContextJSON_try_def coerce_batch_def build_result_def
        Object_fromEntries_def empty_object_def all_values_def batchParseValues_def)
qed

theorem createContextJSON_never_raises_witness:
  "createContextJSON_try sample_JSON_parse
      (Some [Some [Str ''A''], None,
             Some [Str ''C'', Str [], Str [], Str ''k'', Str [], Str [], Str ''v'']])
     = Inl TypeError
   \<and> createContextJSON sample_JSON_parse
      (Some [Some [Str ''A''], None,
             Some [Str ''C'', Str [], Str [], Str ''k'', Str [], Str [], Str ''v'']])
     = []
   \<and> createContextJSON_try sample_JSON_parse
      (Some [Some [Str ''A''],
             Some [Str ''constructor'', Str [], Str [], Str ''k'', Str [], Str [], Str ''v'']])
     = Inl TypeError
   \<and> createContextJSON sample_JSON_parse
      (Some [Some [Str ''A''],
             Some [Str ''constructor'', Str [], Str [], Str ''k'', Str [], Str [], Str ''v'']])
     = []"
proof -
  let ?g1 = "Some [Some [Str ''A''], None,
                   Some [Str ''C'', Str [], Str [], Str ''k'', Str [], Str [], Str ''v'']]"
  let ?g2 = "Some [Some [Str ''A''],
                   Some [Str ''constructor'', Str [], Str [], Str ''k'', Str [], Str [], Str ''v'']]"
  have r1: "createContextJSON_try sample_JSON_parse ?g1 = Inl TypeError"
    by (simp add: createContextJSON_try_def)
  have r2: "createContextJSON_try sample_JSON_parse ?g2 = Inl TypeError"
    by (simp add: createContextJSON_try_def get_property_def object_prototype_names_def
        row_kept_def row_key_def row_value_def row_collection_def cell_at_def)
  from createContextJSON_never_raises [of sample_JSON_parse ?g1] r1
  have "createContextJSON sample_JSON_parse ?g1 = []" by simp
  moreover from createContextJSON_never_raises [of sample_JSON_parse ?g2] r2
  have "createContextJSON sample_JSON_parse ?g2 = []" by simp
  ultimately show ?thesis using r1 r2 by simp
qed

text \<open>
  C4. Every leaf of the output is the coerced text of a cell: a top-level value that is not
  a collection object comes from the value cell \<open>v\<close> of a bare row with that entry key
  that passes the guard, and each value inside a collection object comes from the value
  cell \<open>v\<close> of a row of that collection with that entry key that passes the guard; in both
  cases the output holds what \<open>JSON.parse\<close> returns for \<open>v\<close> when it accepts \<open>v\<close>, and \<open>v\<close>
  itself, unchanged, when it raises.
\<close>

theorem leaves_are_coerced_cells:
  assumes "map_of (createContextJSON p (Some rows)) k = Some x"
  shows "(\<exists>cells. Some cells \<in> set (drop 1 rows) \<and> row_kept cells
            \<and> \<not> truthy (row_collection cells) \<and> to_property_key (row_key cells) = k
            \<and> x = (case p (P (row_value cells)) of Some y \<Rightarrow> y | None \<Rightarrow> P (row_value cells)))
       \<or> (\<exists>members. x = Obj members
            \<and> (\<forall>(k', y) \<in> set members.
                  \<exists>cells. Some cells \<in> set (drop 1 rows) \<and> row_kept cells
                    \<and> truthy (row_collection cells) \<and> to_property_key (row_collection cells) = k
                    \<and> to_property_key (row_key cells) = k'
                    \<and> y = (case p (P (row_value cells)) of
                             Some y' \<Rightarrow> y' | None \<Rightarrow> P (row_value cells))))"
proof -
  have "rows \<noteq> []"
  proof
    assume "rows = []"
    then have "createContextJSON p (Some rows) = []"
      by (simp add: createContextJSON_def createContextJSON_try_def coerce_batch_def build_result_def
          Object_fromEntries_def empty_object_def all_values_def batchParseValues_def)
    with assms show False by simp
  qed
  moreover have "\<not> (\<exists>r \<in> set (drop 1 rows). row_raises r)"
  proof
    assume "\<exists>r \<in> set (drop 1 rows). row_raises r"
    then have "\<exists>e. createContextJSON_try p (Some rows) = Inl e"
      by (simp add: createContextJSON_try_Inl)
    then have "createContextJSON p (Some rows) = []" by (auto simp: createContextJSON_def)
    with assms show False by simp
  qed
  ultimately obtain h cells where rows: "rows = h # map Some cells"
    and cells: "set cells = {c. Some c \<in> set (drop 1 rows)}"
    and ok: "\<forall>r \<in> set cells. \<not> row_raises (Some r)"
    using grid_shape [of rows] by blast
  note look = createContextJSON_grid(2) [OF ok, of p h k]
  show ?thesis
  proof (cases "k \<noteq> proto_key \<and> k \<in> (\<lambda>e. to_property_key (fst e)) ` set (bare_entries cells)")
    case True
    with assms look rows obtain s where s: "map_of (rev (map stored_entry (bare_entries cells))) k = Some s"
      and x: "x = parseValue p s"
      by auto
    from map_of_stored_bare_P [OF s] obtain e where e: "e \<in> set (bare_entries cells)"
      "to_property_key (fst e) = k" "s = P (snd e)"
      by blast
    from e(1) obtain c where c: "c \<in> set cells" "row_kept c" "\<not> truthy (row_collection c)"
      "e = (row_key c, row_value c)"
      by (auto simp: bare_entries_def)
    from c(1) cells have "Some c \<in> set (drop 1 rows)" by blast
    with c e x have "Some c \<in> set (drop 1 rows) \<and> row_kept c
            \<and> \<not> truthy (row_collection c) \<and> to_property_key (row_key c) = k
            \<and> x = (case p (P (row_value c)) of Some y \<Rightarrow> y | None \<Rightarrow> P (row_value c))"
      by (simp add: parseValue_def)
    then show ?thesis by blast
  next
    case False
    let ?ces = "collection_entries k cells"
    let ?members = "map (\<lambda>(k', x). (k', parseValue p x)) (Object_fromEntries ?ces)"
    from False assms look rows have x: "x = Obj ?members"
      by (auto split: if_splits)
    have "\<exists>c. Some c \<in> set (drop 1 rows) \<and> row_kept c
                    \<and> truthy (row_collection c) \<and> to_property_key (row_collection c) = k
                    \<and> to_property_key (row_key c) = k'
                    \<and> y = (case p (P (row_value c)) of
                             Some y' \<Rightarrow> y' | None \<Rightarrow> P (row_value c))"
      if "(k', y) \<in> set ?members" for k' y
    proof -
      from that obtain s where s: "(k', s) \<in> set (Object_fromEntries ?ces)" and y: "y = parseValue p s"
        by auto
      from Object_fromEntries_member [OF s] obtain e where e: "e \<in> set ?ces"
        "to_property_key (fst e) = k'" "s = P (snd e)"
        by blast
      from e(1) obtain c where c: "c \<in> set cells" "row_kept c" "truthy (row_collection c)"
        "to_property_key (row_collection c) = k" "e = (row_key c, row_value c)"
        by (auto simp: collection_entries_def)
      from c(1) cells have "Some c \<in> set (drop 1 rows)" by blast
      with c e y have "Some c \<in> set (drop 1 rows) \<and> row_kept c
                    \<and> truthy (row_collection c) \<and> to_property_key (row_collection c) = k
                    \<and> to_property_key (row_key c) = k'
                    \<and> y = (case p (P (row_value c)) of
                             Some y' \<Rightarrow> y' | None \<Rightarrow> P (row_value c))"
        by (simp add: parseValue_def)
      then show ?thesis by blast
    qed
    then have "\<forall>(k', y) \<in> set ?members.
                  \<exists>cells. Some cells \<in> set (drop 1 rows) \<and> row_kept cells
                    \<and> truthy (row_collection cells) \<and> to_property_key (row_collection cells) = k
                    \<and> to_property_key (row_key cells) = k'
                    \<and> y = (case p (P (row_value cells)) of
                             Some y' \<Rightarrow> y' | None \<Rightarrow> P (row_value cells))"
      by blast
    with x show ?thesis by blast
  qed
qed

theorem leaves_are_coerced_cells_witness:
  "map_of (createContextJSON sample_JSON_parse
      (Some [Some [Str ''A''],
             Some [Str [], Str [], Str [], Str ''n'', Str [], Str [], Str ''42''],
             Some [Str [], Str [], Str [], Str ''s'', Str [], Str [], Str ''forty-two''],
             Some [Str ''Col'', Str [], Str [], Str ''flag'', Str [], Str [], Str ''true'']])) ''n''
     = Some (P (Num 42))
   \<and> map_of (createContextJSON sample_JSON_parse
      (Some [Some [Str ''A''],
             Some [Str [], Str [], Str [], Str ''n'', Str [], Str [], Str ''42''],
             Some [Str [], Str [], Str [], Str ''s'', Str [], Str [], Str ''forty-two''],
             Some [Str ''Col'', Str [], Str [], Str ''flag'', Str [], Str [], Str ''true'']])) ''s''
     = Some (P (Str ''forty-two''))
   \<and> map_of (createContextJSON sample_JSON_parse
      (Some [Some [Str ''A''],
             Some [Str [], Str [], Str [], Str ''n'', Str [], Str [], Str ''42''],
             Some [Str [], Str [], Str [], Str ''s'', Str [], Str [], Str ''forty-two''],
             Some [Str ''Col'', Str [], Str [], Str ''flag'', Str [], Str [], Str ''true'']])) ''Col''
     = Some (Obj [(''flag'', P (Bool True))])
   \<and> (\<exists>cells. Some cells \<in> set (drop 1
             [Some [Str ''A''],
              Some [Str [], Str [], Str [], Str ''n'', Str [], Str [], Str ''42''],
              Some [Str [], Str [], Str [], Str ''s'', Str [], Str [], Str ''forty-two''],
              Some [Str ''Col'', Str [], Str [], Str ''flag'', Str [], Str [], Str ''true'']])
          \<and> row_kept cells \<and> to_property_key (row_key cells) = ''n''
          \<and> P (Num 42) = (case sample_JSON_parse (P (row_value cells)) of
                             Some y \<Rightarrow> y | None \<Rightarrow> P (row_value cells)))
   \<and> (\<exists>cells. Some cells \<in> set (drop 1
             [Some [Str ''A''],
              Some [Str [], Str [], Str [], Str ''n'', Str [], Str [], Str ''42''],
              Some [Str [], Str [], Str [], Str ''s'', Str [], Str [], Str ''forty-two''],
              Some [Str ''Col'', Str [], Str [], Str ''flag'', Str [], Str [], Str ''true'']])
          \<and> row_kept cells \<and> to_property_key (row_collection cells) = ''Col''
          \<and> to_property_key (row_key cells) = ''flag''
          \<and> P (Bool True) = (case sample_JSON_parse (P (row_value cells)) of
                                Some y \<Rightarrow> y | None \<Rightarrow> P (row_value cells)))"
proof -
  let ?g = "[Some [Str ''A''],
             Some [Str [], Str [], Str [], Str ''n'', Str [], Str [], Str ''42''],
             Some [Str [], Str [], Str [], Str ''s'', Str [], Str [], Str ''forty-two''],
             Some [Str ''Col'', Str [], Str [], Str ''flag'', Str [], Str [], Str ''true'']]"
  have n: "map_of (createContextJSON sample_JSON_parse (Some ?g)) ''n'' = Some (P (Num 42))"
    by (simp add: run_defs)
  have s: "map_of (createContextJSON sample_JSON_parse (Some ?g)) ''s'' = Some (P (Str ''forty-two''))"
    by (simp add: run_defs)
  have c: "map_of (createContextJSON sample_JSON_parse (Some ?g)) ''Col''
             = Some (Obj [(''flag'', P (Bool True))])"
    by (simp add: run_defs)
  from leaves_are_coerced_cells [OF n]
  have 1: "\<exists>cells. Some cells \<in> set (drop 1 ?g)
          \<and> row_kept cells \<and> to_property_key (row_key cells) = ''n''
          \<and> P (Num 42) = (case sample_JSON_parse (P (row_value cells)) of
                             Some y \<Rightarrow> y | None \<Rightarrow> P (row_value cells))"
    by blast
  have no_bare: "\<not> (\<exists>cells. Some cells \<in> set (drop 1 ?g) \<and> row_kept cells
            \<and> \<not> truthy (row_collection cells) \<and> to_property_key (row_key cells) = ''Col''
            \<and> Obj [(''flag'', P (Bool True))]
                 = (case sample_JSON_parse (P (row_value cells)) of
                      Some y \<Rightarrow> y | None \<Rightarrow> P (row_value cells)))"
    by (auto simp: row_key_def cell_at_def)
  from leaves_are_coerced_cells [OF c] no_bare
  have "\<forall>(k', y) \<in> set [(''flag'', P (Bool True))].
                  \<exists>cells. Some cells \<in> set (drop 1 ?g) \<and> row_kept cells
                    \<and> truthy (row_collection cells) \<and> to_property_key (row_collection cells) = ''Col''
                    \<and> to_property_key (row_key cells) = k'
                    \<and> y = (case sample_JSON_parse (P (row_value cells)) of
                             Some y' \<Rightarrow> y' | None \<Rightarrow> P (row_value cells))"
    by blast
  then have 2: "\<exists>cells. Some cells \<in> set (drop 1 ?g)
          \<and> row_kept cells \<and> to_property_key (row_collection cells) = ''Col''
          \<and> to_property_key (row_key cells) = ''flag''
          \<and> P (Bool True) = (case sample_JSON_parse (P (row_value cells)) of
                                Some y \<Rightarrow> y | None \<Rightarrow> P (row_value cells))"
    by auto
  from n s c 1 2 show ?thesis by blast
qed




text \<open>
  C6. For every grid the batch pass of the source (collect the leaf values into one array,
  parse the array, write the parsed values back by a running index) yields the same tree
  as coercing every leaf value on its own with \<open>parseValue\<close>.
\<close>

theorem batch_pass_equals_per_leaf:
  "createContextJSON p data = createContextJSON_spec p data"
proof (cases data)
  case None
  then show ?thesis
    by (simp add: createContextJSON_def createContextJSON_try_def createContextJSON_spec_def)
next
  case (Some rows)
  show ?thesis
  proof (cases "scan_rows ([], []) (drop 1 rows)")
    case (Inl e)
    with Some show ?thesis
      by (simp add: createContextJSON_def createContextJSON_try_def createContextJSON_spec_def)
  next
    case (Inr st)
    have "coerce_batch p (own (build_result st)) = coerce_each_spec p (own (build_result st))"
      by (rule coerce_batch_each [OF distinct_build_result shallow_build_result])
    with Some Inr show ?thesis
      by (simp add: createContextJSON_def createContextJSON_try_def createContextJSON_spec_def)
  qed
qed




text \<open>
  C8, as stated, fails for headers that repeat (one entry, holding the value at the last
  position of the name) and for headers that are array indices (they enumerate first).
\<close>

theorem getRowData_counterexample:
  "getRowData (Some [Str ''A'', Str ''A'']) (Some [Str ''x'', Str ''y'']) = [(''A'', P (Str ''y''))]
   \<and> getRowData (Some [Str ''b'', Str ''1'']) (Some [Str ''x'', Str ''y''])
       = [(''1'', P (Str ''y'')), (''b'', P (Str ''x''))]"
  by (simp add: row_defs)

text \<open>
  C8, amended. Let no header be named \<open>__proto__\<close>. The output has distinct keys, and they
  are the header names. A header name maps to the row value at the last position where
  the name occurs, and to \<open>undefined\<close> when the row ends before that position; no value
  from a position beyond the headers appears. When the header names are pairwise distinct
  the output has as many entries as there are headers, and when moreover none of them is
  an array index the output is the positional zip of the headers with the row, in header
  order.
\<close>

theorem getRowData_zip:
  assumes "\<forall>h \<in> set headers. to_property_key h \<noteq> proto_key"
  shows "distinct (map fst (getRowData (Some headers) (Some row)))
       \<and> fst ` set (getRowData (Some headers) (Some row)) = to_property_key ` set headers
       \<and> (\<forall>before h after.
             headers = before @ h # after \<and> to_property_key h \<notin> to_property_key ` set after
             \<longrightarrow> map_of (getRowData (Some headers) (Some row)) (to_property_key h)
                   = Some (P (cell_at row (length before))))
       \<and> (distinct (map to_property_key headers)
             \<longrightarrow> length (getRowData (Some headers) (Some row)) = length headers)
       \<and> (distinct (map to_property_key headers)
            \<and> (\<forall>h \<in> set headers. array_index (to_property_key h) = None)
             \<longrightarrow> getRowData (Some headers) (Some row)
                   = map (\<lambda>(h, v). (to_property_key h, P v))
                       (zip headers (map (cell_at row) [0..<length headers])))"
proof -
  let ?es = "zip headers (map (cell_at row) [0..<length headers])"
  let ?out = "getRowData (Some headers) (Some row)"
  have out: "?out = Object_fromEntries ?es" by (rule getRowData_entries [OF assms])
  have d: "distinct (map fst ?out)" unfolding out by (rule distinct_Object_fromEntries)
  have keys: "fst ` set ?out = to_property_key ` set headers"
    unfolding out key_set_Object_fromEntries
    using zip_positions_keys [of headers "cell_at row" 0] by simp
  have last: "map_of ?out (to_property_key h) = Some (P (cell_at row (length before)))"
    if "headers = before @ h # after \<and> to_property_key h \<notin> to_property_key ` set after"
    for before h after
  proof -
    let ?tail = "zip after (map (cell_at row) [Suc (length before)..<Suc (length before) + length after])"
    from that have hs: "headers = before @ h # after"
      and fresh: "to_property_key h \<notin> to_property_key ` set after"
      by simp_all
    have split: "map stored_entry ?es
            = map stored_entry (zip before (map (cell_at row) [0..<length before]))
                @ (to_property_key h, P (cell_at row (length before))) # map stored_entry ?tail"
      unfolding hs zip_positions_split by simp
    from fresh zip_keys_subset [of after "map (cell_at row) [Suc (length before)..<Suc (length before) + length after]"]
    have "to_property_key h \<notin> (\<lambda>e. to_property_key (fst e)) ` set ?tail" by blast
    then have "to_property_key h \<notin> fst ` set (map stored_entry ?tail)"
      using key_set_stored [of ?tail] by simp
    then show ?thesis
      unfolding out map_of_Object_fromEntries split by (rule map_of_rev_last)
  qed
  have len: "length ?out = length headers" if dh: "distinct (map to_property_key headers)"
  proof -
    have "length ?out = length (map fst ?out)" by simp
    also have "\<dots> = card (set (map fst ?out))" using d by (simp only: distinct_card)
    also have "set (map fst ?out) = set (map to_property_key headers)" using keys by simp
    also have "card (set (map to_property_key headers)) = length (map to_property_key headers)"
      using dh by (rule distinct_card)
    finally show ?thesis by simp
  qed
  have zip: "?out = map (\<lambda>(h, v). (to_property_key h, P v)) ?es"
    if "distinct (map to_property_key headers)
            \<and> (\<forall>h \<in> set headers. array_index (to_property_key h) = None)"
  proof -
    have f: "map fst ?es = headers" by simp
    have "map (\<lambda>e. to_property_key (fst e)) ?es = map (to_property_key \<circ> fst) ?es"
      by (simp only: comp_def)
    also have "\<dots> = map to_property_key (map fst ?es)" by (simp only: map_map)
    finally have k: "map (\<lambda>e. to_property_key (fst e)) ?es = map to_property_key headers"
      unfolding f .
    from that have d': "distinct (map (\<lambda>e. to_property_key (fst e)) ?es)" unfolding k by simp
    from that have plain: "\<forall>e \<in> set ?es. array_index (to_property_key (fst e)) = None"
      by (auto dest: set_zip_leftD)
    have "?out = map stored_entry ?es"
      unfolding out by (rule Object_fromEntries_plain [OF d' plain])
    also have "\<dots> = map (\<lambda>(h, v). (to_property_key h, P v)) ?es"
      by (simp add: stored_entry_def case_prod_beta)
    finally show ?thesis .
  qed
  from d keys last len zip show ?thesis by blast
qed

theorem getRowData_zip_witness:
  "to_property_key (Str ''A'') \<noteq> proto_key \<and> to_property_key (Str ''B'') \<noteq> proto_key
   \<and> getRowData (Some [Str ''A'', Str ''B'']) (Some [Str ''x''])
       = [(''A'', P (Str ''x'')), (''B'', P Undefined)]"
proof -
  have 1: "\<forall>h \<in> set [Str ''A'', Str ''B'']. to_property_key h \<noteq> proto_key"
    by (simp add: proto_key_def)
  have 2: "distinct (map to_property_key [Str ''A'', Str ''B''])
            \<and> (\<forall>h \<in> set [Str ''A'', Str ''B'']. array_index (to_property_key h) = None)"
    by (simp add: array_index_def digit_of_def)
  from getRowData_zip [OF 1, of "[Str ''x'']"] 2
  have "getRowData (Some [Str ''A'', Str ''B'']) (Some [Str ''x''])
          = map (\<lambda>(h, v). (to_property_key h, P v))
              (zip [Str ''A'', Str ''B''] (map (cell_at [Str ''x'']) [0..<length [Str ''A'', Str ''B'']]))"
    by blast
  also have "\<dots> = [(''A'', P (Str ''x'')), (''B'', P Undefined)]"
    by (simp add: cell_at_def upt_rec)
  finally show ?thesis using 1 by simp
qed

text \<open>
  C9. The trigger test is true exactly when the edited column is 10 and the edited value
  is the string \<open>Groom EPIC\<close>; another column, a value of another case and a partial
  match are all rejected.
\<close>

theorem isExtractTodoSummariesTrigger_iff:
  "isExtractTodoSummariesTrigger \<lparr>getColumn = c, getValue = v\<rparr> = (c = 10 \<and> v = Str ''Groom EPIC'')
   \<and> isExtractTodoSummariesTrigger \<lparr>getColumn = 10, getValue = Str ''Groom EPIC''\<rparr>
   \<and> \<not> isExtractTodoSummariesTrigger \<lparr>getColumn = 10, getValue = Str ''groom epic''\<rparr>
   \<and> \<not> isExtractTodoSummariesTrigger \<lparr>getColumn = 9, getValue = Str ''Groom EPIC''\<rparr>
   \<and> \<not> isExtractTodoSummariesTrigger \<lparr>getColumn = 10, getValue = Str ''Groom''\<rparr>
   \<and> \<not> isExtractTodoSummariesTrigger \<lparr>getColumn = 10, getValue = Str ''Groom EPIC ''\<rparr>"
  by (simp add: isExtractTodoSummariesTrigger_def)

text \<open>
  The lookup away from the names that \<open>Object.prototype\<close> supplies: \<open>null\<close> for an
  operation that is not configured or is configured as the empty string, the configured
  string otherwise.
\<close>

lemma getWebhookUrl_configured:
  "operation \<notin> set object_prototype_names \<or> map_of (WEBHOOKS cfg) operation \<noteq> None \<Longrightarrow>
     getWebhookUrl cfg operation =
       (case map_of (WEBHOOKS cfg) operation of
          None \<Rightarrow> Null_url
        | Some url \<Rightarrow> if url = [] then Null_url else Url url)"
  by (auto simp: getWebhookUrl_def get_property_def split: option.splits)

text \<open>
  C10. The claim holds for the configured names and for the names that nothing supplies,
  and the source fails it for a name that \<open>Object.prototype\<close> supplies: \<open>constructor\<close> is
  not configured, the read \<open>CONFIG.WEBHOOKS['constructor']\<close> finds the inherited member,
  which is truthy, and the function returns it instead of \<open>null\<close>.
\<close>

theorem getWebhookUrl_inherited_member:
  "map_of (WEBHOOKS CONFIG) ''constructor'' = None
   \<and> getWebhookUrl CONFIG ''constructor'' = Prototype_member ''constructor''
   \<and> getWebhookUrl CONFIG ''constructor'' \<noteq> Null_url
   \<and> getWebhookUrl CONFIG ''INVALID_OPERATION'' = Null_url
   \<and> getWebhookUrl CONFIG ''GROOM_SUBTASKS'' = Null_url
   \<and> getWebhookUrl CONFIG ''GROOM_EPICS''
       = Url ''https://hook.eu2.make.com/rl83vjk9x0iad1avisatjk9rok27wgpy''"
  by (simp add: getWebhookUrl_def get_property_def CONFIG_def object_prototype_names_def)

end
